theory Spec2Isabelle
  imports Complex_Main
begin

section \<open>Numeric values\<close>

text \<open>
  The notebook computes with IEEE doubles (Python floats and numpy float64 arrays).
  The embedding idealises every finite double as an exact real number (no rounding, no
  overflow) and keeps one extra value, \<open>NonFinite\<close>, for the results that numpy
  produces silently where real arithmetic has none: NaN and the two infinities.
  numpy's float64 division by zero does not raise (it warns and yields NaN or an
  infinity), so \<open>Fin x / Fin 0\<close> is \<open>NonFinite\<close>. A non-finite operand makes the
  result of \<open>+\<close>, \<open>-\<close> and \<open>*\<close> non-finite in IEEE arithmetic as well
  (\<open>inf * 0\<close> and \<open>inf - inf\<close> are NaN), and so does a non-finite dividend. A
  non-finite divisor is the one case where IEEE arithmetic can return to a finite value
  (\<open>1 / inf = 0\<close>). On a signal of finite samples the program never divides by an
  infinity: its divisors are block lengths, the ramp length of the window, the ratio
  \<open>f\<close>, the leading 1 of a coefficient vector, \<open>r[0]\<close>, and \<open>v\<close> in \<open>ld\<close>; \<open>r[0]\<close> is finite, or NaN for an empty block,
  and \<open>v\<close>, when it is not finite, is NaN (the product of a non-finite factor with
  the zero divisor that caused it, or computed from a NaN). The quotient by NaN is NaN,
  which is what \<open>x / NonFinite = NonFinite\<close> says.
\<close>

datatype fl = Fin real | NonFinite

instantiation fl :: "{comm_monoid_add, comm_monoid_mult, minus, uminus, inverse}"
begin

definition zero_fl :: fl where "zero_fl = Fin 0"

definition one_fl :: fl where "one_fl = Fin 1"

fun plus_fl :: "fl \<Rightarrow> fl \<Rightarrow> fl" where
  "plus_fl (Fin a) (Fin b) = Fin (a + b)"
| "plus_fl _ _ = NonFinite"

fun minus_fl :: "fl \<Rightarrow> fl \<Rightarrow> fl" where
  "minus_fl (Fin a) (Fin b) = Fin (a - b)"
| "minus_fl _ _ = NonFinite"

fun uminus_fl :: "fl \<Rightarrow> fl" where
  "uminus_fl (Fin a) = Fin (- a)"
| "uminus_fl NonFinite = NonFinite"

fun times_fl :: "fl \<Rightarrow> fl \<Rightarrow> fl" where
  "times_fl (Fin a) (Fin b) = Fin (a * b)"
| "times_fl _ _ = NonFinite"

fun divide_fl :: "fl \<Rightarrow> fl \<Rightarrow> fl" where
  "divide_fl (Fin a) (Fin b) = (if b = 0 then NonFinite else Fin (a / b))"
| "divide_fl _ _ = NonFinite"

fun inverse_fl :: "fl \<Rightarrow> fl" where
  "inverse_fl (Fin b) = (if b = 0 then NonFinite else Fin (1 / b))"
| "inverse_fl NonFinite = NonFinite"

instance
proof
  fix a b c :: fl
  show "a + b + c = a + (b + c)" by (cases a; cases b; cases c; simp)
  show "a + b = b + a" by (cases a; cases b; simp)
  show "0 + a = a" by (cases a; simp add: zero_fl_def)
  show "a * b * c = a * (b * c)" by (cases a; cases b; cases c; simp)
  show "a * b = b * a" by (cases a; cases b; simp)
  show "1 * a = a" by (cases a; simp add: one_fl_def)
qed

end

section \<open>Python and numpy primitives\<close>

text \<open>The exceptions that the modelled code can raise.\<close>

datatype py_error = IndexError | ValueError | ZeroDivisionError

text \<open>\<open>int(t)\<close> on a Python float truncates towards zero.\<close>

definition py_int :: "real \<Rightarrow> int" where
  "py_int t = (if 0 \<le> t then \<lfloor>t\<rfloor> else \<lceil>t\<rceil>)"

text \<open>
  \<open>x[i]\<close> on a list or a one-dimensional array: an index below zero counts from the
  end, and an index outside \<open>-len(x) .. len(x) - 1\<close> raises \<open>IndexError\<close>.
\<close>

definition getitem :: "'a list \<Rightarrow> int \<Rightarrow> py_error + 'a" where
  "getitem x i =
     (if 0 \<le> i \<and> i < int (length x) then Inr (x ! nat i)
      else if i < 0 \<and> - int (length x) \<le> i then Inr (x ! nat (i + int (length x)))
      else Inl IndexError)"

text \<open>
  \<open>x[i:j]\<close>: each bound below zero counts from the end, and is then clamped to
  \<open>0 .. len(x)\<close>; a slice never raises.
\<close>

definition slice_bound :: "nat \<Rightarrow> int \<Rightarrow> nat" where
  "slice_bound len i = (if i < 0 then nat (i + int len) else min (nat i) len)"

definition py_slice :: "'a list \<Rightarrow> int \<Rightarrow> int \<Rightarrow> 'a list" where
  "py_slice x i j =
     (let lo = slice_bound (length x) i;
          hi = slice_bound (length x) j
      in take (hi - lo) (drop lo x))"

text \<open>\<open>range(0, n)\<close> and \<open>range(0, stop, step)\<close>; a zero step raises \<open>ValueError\<close>.\<close>

definition py_range :: "int \<Rightarrow> int list" where
  "py_range n = map int [0..<nat n]"

definition py_range_step :: "int \<Rightarrow> int \<Rightarrow> py_error + int list" where
  "py_range_step stop step =
     (if step = 0 then Inl ValueError
      else if 0 < step
        then Inr (map (\<lambda>k. int k * step) [0..<nat ((stop + step - 1) div step)])
      else Inr (map (\<lambda>k. int k * step) [0..<nat ((- stop - step - 1) div (- step))]))"

text \<open>
  \<open>u * v\<close> on one-dimensional arrays: elementwise when the lengths agree, a
  one-element array is broadcast, any other pair of lengths raises \<open>ValueError\<close>.
\<close>

definition np_mul :: "fl list \<Rightarrow> fl list \<Rightarrow> py_error + fl list" where
  "np_mul u v =
     (if length u = length v then Inr (map2 (*) u v)
      else if length u = 1 then Inr (map (\<lambda>b. hd u * b) v)
      else if length v = 1 then Inr (map (\<lambda>a. a * hd v) u)
      else Inl ValueError)"

text \<open>
  \<open>y[i:j] += v\<close>: the slice is a view of \<open>y\<close>, and \<open>v\<close> must have its length or
  be a one-element array (broadcast over the view); otherwise \<open>ValueError\<close>.
\<close>

definition iadd_slice :: "fl list \<Rightarrow> int \<Rightarrow> int \<Rightarrow> fl list \<Rightarrow> py_error + fl list" where
  "iadd_slice y i j v =
     (let lo = slice_bound (length y) i;
          hi = slice_bound (length y) j;
          m = hi - lo;
          view = take m (drop lo y)
      in if length v = length view
           then Inr (take lo y @ map2 (+) view v @ drop (lo + length view) y)
         else if length v = 1
           then Inr (take lo y @ map (\<lambda>a. a + hd v) view @ drop (lo + length view) y)
         else Inl ValueError)"

text \<open>\<open>np.dot\<close> of two one-dimensional arrays; lengths that differ raise \<open>ValueError\<close>.\<close>

definition np_dot :: "fl list \<Rightarrow> fl list \<Rightarrow> py_error + fl" where
  "np_dot u v =
     (if length u = length v then Inr (sum_list (map2 (*) u v)) else Inl ValueError)"

section \<open>Fractional resampling\<close>

text \<open>
  \<^verbatim>\<open>
  def subsample(x, t):
      n = int(t)
      a = 1.0 - (t - n)
      try:
          return a * x[n] + (1 - a) * x[n + 1]
      except IndexError:
          try:
              return a * x[n]
          except IndexError:
              return 0
  \<close>
  \<open>x[n]\<close> is read before \<open>x[n + 1]\<close>. When \<open>x[n]\<close> raises, the handler reads it
  again, it raises again, and the result is 0. When only \<open>x[n + 1]\<close> raises, the handler
  returns the first term.
\<close>

definition subsample :: "fl list \<Rightarrow> real \<Rightarrow> fl" where
  "subsample x t =
     (let n = py_int t;
          a = 1 - (t - real_of_int n)
      in case getitem x n of
           Inl _ \<Rightarrow> Fin 0
         | Inr xn \<Rightarrow>
             (case getitem x (n + 1) of
                Inl _ \<Rightarrow> Fin a * xn
              | Inr xn1 \<Rightarrow> Fin a * xn + Fin (1 - a) * xn1))"

text \<open>
  The interpolator as the specification words it (section 4.4): \<open>floor\<close> of the index,
  the two-point formula when both samples exist, the first term alone when only
  \<open>x[floor(t)]\<close> exists, and 0 when \<open>floor(t)\<close> is not an index of \<open>x\<close>.
\<close>

definition interpolate_spec :: "fl list \<Rightarrow> real \<Rightarrow> fl" where
  "interpolate_spec x t =
     (let k = \<lfloor>t\<rfloor>;
          frac = t - real_of_int k
      in if 0 \<le> k \<and> k + 1 < int (length x)
           then Fin (1 - frac) * x ! nat k + Fin frac * x ! nat (k + 1)
         else if 0 \<le> k \<and> k < int (length x)
           then Fin (1 - frac) * x ! nat k
         else Fin 0)"

text \<open>
  \<^verbatim>\<open>
  def resample(x, f):
      n_out = int(np.floor(len(x) / f))
      y = np.zeros(n_out)
      for n in range(0, n_out):
          y[n] = subsample(x, float(n) * f)
      return y
  \<close>
  \<open>f\<close> is a Python float: \<open>len(x) / f\<close> raises \<open>ZeroDivisionError\<close> when it is 0,
  and \<open>np.zeros\<close> raises \<open>ValueError\<close> on a negative length. Every pass of the loop
  writes one entry of \<open>y\<close> from \<open>x\<close> alone.
\<close>

definition resample :: "fl list \<Rightarrow> real \<Rightarrow> py_error + fl list" where
  "resample x f =
     (if f = 0 then Inl ZeroDivisionError
      else let n_out = \<lfloor>real (length x) / f\<rfloor>
           in if n_out < 0 then Inl ValueError
              else Inr (map (\<lambda>n. subsample x (real_of_int n * f)) (py_range n_out)))"

section \<open>Tapered window\<close>

text \<open>
  \<^verbatim>\<open>
  def win_taper(N, a):
      R = int(N * a / 2)
      r = np.arange(0, R) / float(R)
      win = np.r_[r, np.ones(N - 2*R), r[::-1]]
      stride = N - R - 1
      return win, stride
  \<close>
  \<open>np.arange(0, R)\<close> is empty for \<open>R \<le> 0\<close>, and dividing the empty array by
  \<open>float(R)\<close> raises nothing. \<open>np.ones\<close> raises \<open>ValueError\<close> on a negative length.
\<close>

definition win_taper :: "int \<Rightarrow> real \<Rightarrow> py_error + (fl list \<times> int)" where
  "win_taper N a =
     (let R = py_int (real_of_int N * a / 2);
          r = map (\<lambda>k. Fin (real_of_int k) / Fin (real_of_int R)) (py_range R)
      in if N - 2 * R < 0 then Inl ValueError
         else Inr (r @ replicate (nat (N - 2 * R)) (Fin 1) @ rev r, N - R - 1))"

text \<open>
  The notebook's check of the window (the cell after \<open>win_taper\<close>):
  \<^verbatim>\<open>
  win1 = np.r_[win, np.zeros(stride)]
  win2 = np.r_[np.zeros(stride), win]
  plt.plot(win1 + win2);
  \<close>
  The two copies overlap on the indices \<open>stride .. len(win) - 1\<close>.
\<close>

definition crossfade_sum :: "fl list \<Rightarrow> int \<Rightarrow> py_error + fl list" where
  "crossfade_sum win stride =
     (if stride < 0 then Inl ValueError
      else Inr (map2 (+) (win @ replicate (nat stride) (Fin 0))
                         (replicate (nat stride) (Fin 0) @ win)))"

section \<open>Linear prediction\<close>

text \<open>
  \<^verbatim>\<open>
  def bac(x, p):
      # compute the biased autocorrelation for x up to lag p
      L = len(x)
      r = np.zeros(p+1)
      for m in range(0, p+1):
          for n in range(0, L-m):
              r[m] += x[n] * x[n+m]
          r[m] /= float(L)
      return r
  \<close>
  The inner loop is \<open>bac_inner\<close>: it reads \<open>x[n]\<close> and \<open>x[n+m]\<close> with Python's
  indexing, so an access out of range would show as \<open>Inl IndexError\<close>. The outer loop
  is \<open>bac_outer\<close>: every pass fills the entry \<open>r[m]\<close> from zero and divides it by
  \<open>float(L)\<close>, a numpy division, which yields NaN for \<open>0.0 / 0.0\<close> and raises nothing.
\<close>

fun bac_inner :: "fl list \<Rightarrow> int \<Rightarrow> int list \<Rightarrow> fl \<Rightarrow> py_error + fl" where
  "bac_inner x m [] acc = Inr acc"
| "bac_inner x m (n # ns) acc =
     (case getitem x n of
        Inl e \<Rightarrow> Inl e
      | Inr xn \<Rightarrow>
          (case getitem x (n + m) of
             Inl e \<Rightarrow> Inl e
           | Inr xm \<Rightarrow> bac_inner x m ns (acc + xn * xm)))"

fun bac_outer :: "fl list \<Rightarrow> int list \<Rightarrow> py_error + fl list" where
  "bac_outer x [] = Inr []"
| "bac_outer x (m # ms) =
     (case bac_inner x m (py_range (int (length x) - m)) (Fin 0) of
        Inl e \<Rightarrow> Inl e
      | Inr s \<Rightarrow>
          (case bac_outer x ms of
             Inl e \<Rightarrow> Inl e
           | Inr rs \<Rightarrow> Inr (s / Fin (real (length x)) # rs)))"

definition bac :: "fl list \<Rightarrow> int \<Rightarrow> py_error + fl list" where
  "bac x p = (if p + 1 < 0 then Inl ValueError else bac_outer x (py_range (p + 1)))"

text \<open>
  \<^verbatim>\<open>
  def ld(r, p):
      # solve the toeplitz system using the Levinson-Durbin algorithm
      g = r[1] / r[0]
      a = np.array([g])
      v = (1. - g * g) * r[0];
      for i in range(1, p):
          g = (r[i+1] - np.dot(a, r[1:i+1])) / v
          a = np.r_[ g,  a - g * a[i-1::-1] ]
          v *= 1. - g*g
      # return the coefficients of the A(z) filter
      return np.r_[1, -a[::-1]]
  \<close>
  \<open>r\<close> is the numpy array that \<open>bac\<close> returns, so both divisions are float64
  divisions: a zero divisor yields NaN or an infinity and raises nothing. The loop is
  \<open>ld_loop\<close> over the indices \<open>range(1, p)\<close>, with the pair \<open>(a, v)\<close> as its state;
  \<open>a[i-1::-1]\<close> is the first \<open>i\<close> entries of \<open>a\<close> in reverse. \<open>ld_state\<close> is the
  function up to its last line, \<open>ld\<close> the whole.
\<close>

fun ld_loop :: "fl list \<Rightarrow> int list \<Rightarrow> fl list \<times> fl \<Rightarrow> py_error + (fl list \<times> fl)" where
  "ld_loop r [] (a, v) = Inr (a, v)"
| "ld_loop r (i # is) (a, v) =
     (case getitem r (i + 1) of
        Inl e \<Rightarrow> Inl e
      | Inr ri \<Rightarrow>
          (case np_dot a (py_slice r 1 (i + 1)) of
             Inl e \<Rightarrow> Inl e
           | Inr d \<Rightarrow>
               (let g = (ri - d) / v;
                    a' = g # map2 (\<lambda>c b. c - g * b) a (rev (take (nat i) a))
                in ld_loop r is (a', v * (Fin 1 - g * g)))))"

definition ld_state :: "fl list \<Rightarrow> int \<Rightarrow> py_error + (fl list \<times> fl)" where
  "ld_state r p =
     (case getitem r 1 of
        Inl e \<Rightarrow> Inl e
      | Inr r1 \<Rightarrow>
          (case getitem r 0 of
             Inl e \<Rightarrow> Inl e
           | Inr r0 \<Rightarrow>
               (let g = r1 / r0
                in ld_loop r (map (\<lambda>k. k + 1) (py_range (p - 1))) ([g], (Fin 1 - g * g) * r0))))"

definition ld :: "fl list \<Rightarrow> int \<Rightarrow> py_error + fl list" where
  "ld r p =
     (case ld_state r p of
        Inl e \<Rightarrow> Inl e
      | Inr (a, v) \<Rightarrow> Inr (Fin 1 # map uminus (rev a)))"

text \<open>
  The values that \<open>ld(r, p)\<close> divides by: \<open>r[0]\<close>, and in the pass \<open>i\<close> of its loop
  (\<open>1 \<le> i < p\<close>) the \<open>v\<close> that the passes before it have left, which is the \<open>v\<close>
  that the loop ends with for the order \<open>i\<close>.
\<close>

definition ld_divisors :: "fl list \<Rightarrow> int \<Rightarrow> fl list" where
  "ld_divisors r p =
     (case getitem r 0 of Inl e \<Rightarrow> [] | Inr r0 \<Rightarrow> [r0]) @
     map (\<lambda>i. case ld_state r (int i) of Inl e \<Rightarrow> NonFinite | Inr (a, v) \<Rightarrow> v) [1..<nat p]"

text \<open>
  The system that the notebook states for the LPC coefficients \<open>a_1 .. a_p\<close>: the
  symmetric Toeplitz matrix with the entries \<open>r[|m - j|]\<close>, applied to \<open>a\<close>, is
  \<open>r[1 .. p]\<close>. \<open>a ! j\<close> is \<open>a_(j+1)\<close>.
\<close>

definition toeplitz_row :: "real list \<Rightarrow> real list \<Rightarrow> nat \<Rightarrow> real" where
  "toeplitz_row r a m = (\<Sum>j<length a. a ! j * r ! nat \<bar>int m - int j\<bar>)"

definition solves_toeplitz :: "real list \<Rightarrow> real list \<Rightarrow> bool" where
  "solves_toeplitz r a = list_all (\<lambda>m. toeplitz_row r a m = r ! (m + 1)) [0..<length a]"

text \<open>
  \<^verbatim>\<open>
  def lpc(x, p):
      # compute p LPC coefficients for a speech segment
      return ld(bac(x, p), p)
  \<close>
\<close>

definition lpc :: "fl list \<Rightarrow> int \<Rightarrow> py_error + fl list" where
  "lpc x p = (case bac x p of Inl e \<Rightarrow> Inl e | Inr r \<Rightarrow> ld r p)"

section \<open>The filter of the analysis and synthesis steps\<close>

text \<open>
  Modelled from the spec: \<open>scipy.signal.lfilter(b, a, x)\<close> is a library routine, absent
  from the sources. Section 4.3 of the specification and the routine's documentation
  give its contract: with both coefficient vectors divided by \<open>a[0]\<close> and padded with
  zeros to a common length, and a delay line that starts at zero,
  \<open>y[n] = b[0] x[n] + ... + b[K] x[n-K] - a[1] y[n-1] - ... - a[K] y[n-K]\<close>,
  where the terms that would reach before the first sample are absent. An empty
  denominator, or one that starts with 0, is refused with \<open>ValueError\<close>.
  \<open>lfilter_run\<close> produces one output per input; \<open>xh\<close> and \<open>yh\<close> are the inputs
  and outputs seen so far, most recent first.
\<close>

fun lfilter_run :: "fl list \<Rightarrow> fl list \<Rightarrow> fl list \<Rightarrow> fl list \<Rightarrow> fl list \<Rightarrow> fl list" where
  "lfilter_run b a xh yh [] = []"
| "lfilter_run b a xh yh (x # xs) =
     (let y = sum_list (map2 (*) b (x # xh)) - sum_list (map2 (*) a yh)
      in y # lfilter_run b a (x # xh) (y # yh) xs)"

definition lfilter :: "fl list \<Rightarrow> fl list \<Rightarrow> fl list \<Rightarrow> py_error + fl list" where
  "lfilter b a x =
     (case a of
        [] \<Rightarrow> Inl ValueError
      | a0 # _ \<Rightarrow>
          if a0 = Fin 0 then Inl ValueError
          else let K = max (length a) (length b);
                   bn = map (\<lambda>c. c / a0) b @ replicate (K - length b) (Fin 0);
                   an = map (\<lambda>c. c / a0) a @ replicate (K - length a) (Fin 0)
               in Inr (lfilter_run bn (tl an) [] [] x))"

section \<open>The LPC granular pitch shifter\<close>

text \<open>
  \<^verbatim>\<open>
  def LPC_GS_pshift(x, f, G, P, overlap=0.2):
      N = len(x)
      y = np.zeros(N)
      igs = int(G * f + 0.5)
      win, stride = win_taper(G, overlap)
      for n in range(0, len(x) - max(igs, G), stride):
          w = x[n:n+igs]
          a = lpc(w, P)
          e = sp.lfilter(a, [1], w)
          e = resample(e, f)
          w = sp.lfilter([1], a, e)
          y[n:n+G] += w * win
      return y
  \<close>
  \<open>grain_step\<close> is the body of the loop for one grain start \<open>n\<close>, \<open>grain_loop\<close> the
  loop, with the accumulator \<open>y\<close> as its state. An exception of any step ends the call.
\<close>

definition grain_step ::
  "fl list \<Rightarrow> real \<Rightarrow> int \<Rightarrow> int \<Rightarrow> int \<Rightarrow> fl list \<Rightarrow> int \<Rightarrow> fl list \<Rightarrow> py_error + fl list" where
  "grain_step x f G P igs win n y =
     (let w = py_slice x n (n + igs) in
      case lpc w P of
        Inl e \<Rightarrow> Inl e
      | Inr a \<Rightarrow>
          (case lfilter a [Fin 1] w of
             Inl e \<Rightarrow> Inl e
           | Inr e1 \<Rightarrow>
               (case resample e1 f of
                  Inl e \<Rightarrow> Inl e
                | Inr e2 \<Rightarrow>
                    (case lfilter [Fin 1] a e2 of
                       Inl e \<Rightarrow> Inl e
                     | Inr w2 \<Rightarrow>
                         (case np_mul w2 win of
                            Inl e \<Rightarrow> Inl e
                          | Inr ww \<Rightarrow> iadd_slice y n (n + G) ww)))))"

fun grain_loop ::
  "fl list \<Rightarrow> real \<Rightarrow> int \<Rightarrow> int \<Rightarrow> int \<Rightarrow> fl list \<Rightarrow> int list \<Rightarrow> fl list \<Rightarrow> py_error + fl list" where
  "grain_loop x f G P igs win [] y = Inr y"
| "grain_loop x f G P igs win (n # ns) y =
     (case grain_step x f G P igs win n y of
        Inl e \<Rightarrow> Inl e
      | Inr y' \<Rightarrow> grain_loop x f G P igs win ns y')"

definition LPC_GS_pshift :: "fl list \<Rightarrow> real \<Rightarrow> int \<Rightarrow> int \<Rightarrow> real \<Rightarrow> py_error + fl list" where
  "LPC_GS_pshift x f G P overlap =
     (let N = int (length x);
          y = replicate (length x) (Fin 0);
          igs = py_int (real_of_int G * f + 1 / 2)
      in case win_taper G overlap of
           Inl e \<Rightarrow> Inl e
         | Inr (win, stride) \<Rightarrow>
             (case py_range_step (N - max igs G) stride of
                Inl e \<Rightarrow> Inl e
              | Inr ns \<Rightarrow> grain_loop x f G P igs win ns y))"

section \<open>Arithmetic of the numeric values\<close>

lemma NonFinite_arith [simp]:
  "NonFinite + x = NonFinite" "x + NonFinite = NonFinite"
  "NonFinite - x = NonFinite" "x - NonFinite = NonFinite"
  "NonFinite * x = NonFinite" "x * NonFinite = NonFinite"
  "NonFinite / x = NonFinite" "x / NonFinite = NonFinite"
  by (cases x; simp)+

lemma zero_fl_Fin [simp]: "(0::fl) = Fin 0"
  and one_fl_Fin [simp]: "(1::fl) = Fin 1"
  by (simp_all add: zero_fl_def one_fl_def)

section \<open>The interpolator\<close>

text \<open>
  Claim C7 reads: for every sequence \<open>x\<close> and every real index \<open>t\<close>, \<open>subsample(x, t)\<close>
  is the two-point interpolation at \<open>floor(t)\<close> when both samples exist, the first term
  alone when only \<open>x[floor(t)]\<close> exists, and 0 when \<open>floor(t)\<close> is out of range,
  every negative \<open>t\<close> included. That is \<open>interpolate_spec\<close>. The code agrees with it
  for every index \<open>t \<ge> 0\<close>, the only indices that \<open>resample\<close> passes.
\<close>

theorem subsample_interpolates:
  assumes "0 \<le> t"
  shows "subsample x t = interpolate_spec x t"
  using assms
  by (auto simp: subsample_def interpolate_spec_def py_int_def getitem_def Let_def nat_add_distrib)

theorem subsample_interpolates_witness:
  "(0::real) \<le> 1 / 2 \<and> subsample [Fin 1, Fin 3] (1 / 2) = Fin 2"
  using subsample_interpolates [of "1 / 2" "[Fin 1, Fin 3]"]
  by (simp add: interpolate_spec_def)

text \<open>
  For a negative index the two differ: \<open>int(-1.0)\<close> is \<open>-1\<close>, and \<open>x[-1]\<close> is the last
  sample of \<open>x\<close>, not an \<open>IndexError\<close>.
\<close>

theorem subsample_negative_index_counterexample:
  "subsample [Fin 1, Fin 2] (- 1) = Fin 2 \<and> interpolate_spec [Fin 1, Fin 2] (- 1) = Fin 0"
  by code_simp

section \<open>The window\<close>

text \<open>
  Claim C2 reads: for every window length \<open>N\<close> and taper \<open>a\<close> in \<open>[0, 1]\<close>, the window
  of \<open>win_taper(N, a)\<close> added to its copy shifted by the stride is 1 at every index
  where the two overlap. With no taper (\<open>N = 2\<close>, \<open>a = 0\<close>) the window is all ones,
  the stride is \<open>N - 1\<close> and the one shared index sums to 2; with a full taper of an
  even length (\<open>N = 4\<close>, \<open>a = 1\<close>) the ramps never reach 1 and the two ends of the shared
  span sum to 1/2.
\<close>

theorem win_taper_unity_fails:
  "win_taper 2 0 = Inr ([Fin 1, Fin 1], 1) \<and>
   crossfade_sum [Fin 1, Fin 1] 1 = Inr [Fin 1, Fin 2, Fin 1] \<and>
   win_taper 4 1 = Inr ([Fin 0, Fin (1 / 2), Fin (1 / 2), Fin 0], 1) \<and>
   crossfade_sum [Fin 0, Fin (1 / 2), Fin (1 / 2), Fin 0] 1 =
     Inr [Fin 0, Fin (1 / 2), Fin 1, Fin (1 / 2), Fin 0]"
  by code_simp

section \<open>The pitch shifter on concrete inputs\<close>

text \<open>
  Claim C1 reads: for every signal and every valid parameter set, \<open>LPC_GS_pshift\<close>
  returns a sequence as long as the input. For \<open>G = 3\<close> and \<open>f = 0.7\<close> the input grain
  has \<open>int(2.6) = 2\<close> samples, \<open>resample\<close> returns \<open>floor(2 / 0.7) = 2\<close> samples, and
  the product of two samples with the window of three raises \<open>ValueError\<close>.
\<close>

theorem LPC_GS_pshift_shape_mismatch:
  "LPC_GS_pshift [Fin 1, Fin 2, Fin 3, Fin 4] (7 / 10) 3 1 (1 / 5) = Inl ValueError"
  by code_simp

section \<open>The autocorrelation estimator\<close>

lemma getitem_nat [simp]: "n < length x \<Longrightarrow> getitem x (int n) = Inr (x ! n)"
  by (simp add: getitem_def)

lemma bac_inner_fold:
  assumes "0 \<le> m" "\<forall>n\<in>set ns. n + nat m < length x"
  shows "bac_inner x m (map int ns) acc = Inr (fold (\<lambda>n s. s + x ! n * x ! (n + nat m)) ns acc)"
  using assms
proof (induction ns arbitrary: acc)
  case Nil
  then show ?case by simp
next
  case (Cons n ns)
  have n: "n < length x" "n + nat m < length x" using Cons.prems by auto
  have "int n + m = int (n + nat m)" using Cons.prems(1) by simp
  then have "getitem x (int n + m) = Inr (x ! (n + nat m))"
    using n(2) getitem_nat by metis
  then show ?case using Cons n by simp
qed

lemma bac_inner_range:
  assumes "0 \<le> m"
  shows "bac_inner x m (py_range (int (length x) - m)) acc =
         Inr (fold (\<lambda>n s. s + x ! n * x ! (n + nat m)) [0..<length x - nat m] acc)"
proof -
  have "nat (int (length x) - m) = length x - nat m" using assms by simp
  moreover have "\<forall>n\<in>set [0..<length x - nat m]. n + nat m < length x" by auto
  ultimately show ?thesis
    unfolding py_range_def using bac_inner_fold [OF assms] by simp
qed

lemma bac_outer_map:
  assumes "\<forall>m\<in>set ms. 0 \<le> m"
  shows "bac_outer x ms =
         Inr (map (\<lambda>m. fold (\<lambda>n s. s + x ! n * x ! (n + nat m)) [0..<length x - nat m] (Fin 0)
                        / Fin (real (length x))) ms)"
  using assms by (induction ms) (simp_all add: bac_inner_range)

text \<open>
  For a lag bound \<open>p \<ge> 0\<close> the estimator returns, and no index is out of range: entry
  \<open>m\<close> is the sum of the products \<open>x[n] * x[n+m]\<close> for \<open>n < L - m\<close>, divided by \<open>L\<close>.
\<close>

lemma bac_entries:
  assumes "0 \<le> p"
  shows "bac x p =
         Inr (map (\<lambda>m. fold (\<lambda>n s. s + x ! n * x ! (n + m)) [0..<length x - m] (Fin 0)
                        / Fin (real (length x))) [0..<nat p + 1])"
proof -
  have "nat (p + 1) = nat p + 1" using assms by simp
  then show ?thesis
    using assms by (simp add: bac_def py_range_def bac_outer_map comp_def)
qed

lemma fold_Fin_sum:
  assumes "\<forall>n\<in>set ns. n < length xs \<and> n + m < length xs"
  shows "fold (\<lambda>n s. s + map Fin xs ! n * map Fin xs ! (n + m)) ns (Fin a) =
         Fin (a + (\<Sum>n\<leftarrow>ns. xs ! n * xs ! (n + m)))"
  using assms by (induction ns arbitrary: a) (simp_all add: add.assoc)

text \<open>
  Claim C4: for a block \<open>x\<close> of \<open>L\<close> real samples and a lag bound \<open>p < L\<close>, \<open>bac(x, p)\<close>
  returns the \<open>p + 1\<close> values \<open>r[m] = (1/L) * sum_{k=0}^{L-m-1} x[k] * x[k+m]\<close>, the
  biased estimator.
\<close>

theorem bac_biased_autocorrelation:
  assumes "0 \<le> p" "p < int (length xs)"
  shows "bac (map Fin xs) p =
         Inr (map (\<lambda>m. Fin ((\<Sum>k<length xs - m. xs ! k * xs ! (k + m)) / real (length xs)))
                  [0..<nat p + 1])"
proof -
  have L: "length xs \<noteq> 0" using assms by auto
  have "fold (\<lambda>n s. s + map Fin xs ! n * map Fin xs ! (n + m)) [0..<length xs - m] (Fin 0) =
        Fin (\<Sum>k<length xs - m. xs ! k * xs ! (k + m))" for m
  proof -
    have "\<forall>n\<in>set [0..<length xs - m]. n < length xs \<and> n + m < length xs" by auto
    from fold_Fin_sum [OF this, of 0] show ?thesis
      by (simp add: interv_sum_list_conv_sum_set_nat atLeast0LessThan)
  qed
  then show ?thesis using L by (simp add: bac_entries [OF assms(1)])
qed

theorem bac_biased_autocorrelation_witness:
  "(0::int) \<le> 1 \<and> (1::int) < int (length [1, 2 :: real]) \<and>
   bac [Fin 1, Fin 2] 1 = Inr [Fin (5 / 2), Fin 1]"
  using bac_biased_autocorrelation [of 1 "[1, 2]"]
  by (simp add: lessThan_Suc numeral_2_eq_2)

text \<open>
  Claim C10 reads: for every block \<open>x\<close> of length \<open>L\<close> and every lag bound \<open>p \<ge> 0\<close>,
  also \<open>p \<ge> L\<close>, \<open>bac(x, p)\<close> returns without an access out of range a vector of
  \<open>p + 1\<close> entries, and every entry at a lag \<open>m \<ge> L\<close> is 0. The entry at such a lag is
  the empty sum divided by \<open>L\<close>: it is 0 for a block that is not empty, and \<open>0.0 / 0.0\<close>,
  NaN, for the empty block.
\<close>

theorem bac_lag_beyond_block:
  assumes "0 \<le> p"
  shows "\<exists>r. bac x p = Inr r \<and> length r = nat p + 1 \<and>
             (\<forall>m. length x \<le> m \<and> m \<le> nat p \<longrightarrow>
                  r ! m = (if x = [] then NonFinite else Fin 0))"
proof -
  let ?e = "\<lambda>m. fold (\<lambda>n s. s + x ! n * x ! (n + m)) [0..<length x - m] (Fin 0)
                   / Fin (real (length x))"
  have "?e m = (if x = [] then NonFinite else Fin 0)" if "length x \<le> m" for m
    using that by simp
  then show ?thesis
    using bac_entries [OF assms, of x] by (auto simp del: upt_Suc)
qed

theorem bac_lag_beyond_block_witness:
  "(0::int) \<le> 3 \<and>
   (\<exists>r. bac [Fin 1, Fin 2] 3 = Inr r \<and> length r = 4 \<and> r ! 2 = Fin 0 \<and> r ! 3 = Fin 0)"
proof -
  have p: "(0::int) \<le> 3" by simp
  from bac_lag_beyond_block [OF p, of "[Fin 1, Fin 2]"] obtain r where
    r: "bac [Fin 1, Fin 2] 3 = Inr r" "length r = nat 3 + 1"
       "\<forall>m. length [Fin 1, Fin 2] \<le> m \<and> m \<le> nat 3 \<longrightarrow>
            r ! m = (if [Fin 1, Fin 2] = [] then NonFinite else Fin 0)"
    by blast
  from r(3) have "r ! 2 = Fin 0" "r ! 3 = Fin 0" by simp_all
  then show ?thesis using r(1,2) by simp
qed

theorem bac_empty_block_counterexample:
  "bac [] 0 = Inr [NonFinite]"
  by code_simp

section \<open>The Levinson-Durbin solver\<close>

lemma ld_indices: "map (\<lambda>k. k + 1) (py_range (p - 1)) = map int [1..<nat p]"
proof -
  have "map (\<lambda>k. k + 1) (map int [0..<n]) = map int [1..<Suc n]" for n
    by (induction n) simp_all
  from this [of "nat (p - 1)"] show ?thesis
    by (cases "1 \<le> p") (simp_all add: py_range_def Suc_nat_eq_nat_zadd1)
qed

lemma ld_loop_append:
  "ld_loop r (is @ js) s =
     (case ld_loop r is s of Inl e \<Rightarrow> Inl e | Inr s' \<Rightarrow> ld_loop r js s')"
proof (induction "is" arbitrary: s)
  case Nil
  then show ?case by (cases s) simp
next
  case (Cons i "is")
  obtain a v where s: "s = (a, v)" by (cases s)
  show ?case unfolding s using Cons.IH
    by (simp add: Let_def split: sum.splits)
qed

lemma py_slice_tail: "Suc i < length r \<Longrightarrow> py_slice r 1 (int i + 1) = take i (drop 1 r)"
  by (simp add: py_slice_def slice_bound_def min_def nat_add_distrib)

lemma map2_replicate_NonFinite:
  "length bs = n \<Longrightarrow> map2 (\<lambda>c b. c - g * b) (replicate n NonFinite) bs = replicate n NonFinite"
  by (induction n arbitrary: bs) (auto simp: length_Suc_conv)

lemma ld_loop_NonFinite_step:
  assumes "Suc i < length r"
  shows "ld_loop r [int i] (replicate i NonFinite, NonFinite) =
         Inr (replicate (Suc i) NonFinite, NonFinite)"
proof -
  have "getitem r (int i + 1) = Inr (r ! Suc i)"
    using assms getitem_nat [of "Suc i" r] by (simp add: add.commute)
  moreover have "length (py_slice r 1 (int i + 1)) = i"
    using assms by (simp add: py_slice_tail)
  ultimately show ?thesis
    by (simp add: np_dot_def Let_def map2_replicate_NonFinite)
qed

lemma ld_loop_NonFinite:
  assumes "n < length r" "j \<le> n"
  shows "ld_loop r (map int [j..<n]) (replicate j NonFinite, NonFinite) =
         Inr (replicate n NonFinite, NonFinite)"
  using assms
proof (induction n)
  case 0
  then show ?case by simp
next
  case (Suc n)
  show ?case
  proof (cases "j = Suc n")
    case True
    then show ?thesis by simp
  next
    case False
    then have j: "j \<le> n" using Suc.prems by simp
    have "ld_loop r (map int [j..<n]) (replicate j NonFinite, NonFinite) =
          Inr (replicate n NonFinite, NonFinite)"
      using Suc.IH Suc.prems j by simp
    moreover have "map int [j..<Suc n] = map int [j..<n] @ [int n]" using j by simp
    ultimately show ?thesis
      using ld_loop_NonFinite_step [of n r] Suc.prems(1)
      by (simp add: ld_loop_append del: ld_loop.simps upt_Suc)
  qed
qed

lemma ld_state_split:
  assumes "1 \<le> k" "k \<le> nat p"
  shows "ld_state r p =
         (case ld_state r (int k) of Inl e \<Rightarrow> Inl e | Inr s \<Rightarrow> ld_loop r (map int [k..<nat p]) s)"
proof -
  have "[1..<nat p] = [1..<k] @ [k..<nat p]"
    using assms by (metis le_Suc_ex upt_add_eq_append)
  then show ?thesis
    by (simp add: ld_state_def ld_indices ld_loop_append Let_def split: sum.splits)
qed

lemma ld_loop_length:
  assumes "ld_loop r (map int [j..<n]) (a, v) = Inr (a', v')" "length a = j" "j \<le> n"
  shows "length a' = n"
  using assms
proof (induction n arbitrary: a' v')
  case 0
  then show ?case by simp
next
  case (Suc n)
  show ?case
  proof (cases "j = Suc n")
    case True
    then show ?thesis using Suc.prems by simp
  next
    case False
    then have j: "j \<le> n" using Suc.prems by simp
    then have "map int [j..<Suc n] = map int [j..<n] @ [int n]" by simp
    then obtain a1 v1 where
      1: "ld_loop r (map int [j..<n]) (a, v) = Inr (a1, v1)" and
      2: "ld_loop r [int n] (a1, v1) = Inr (a', v')"
      using Suc.prems(1) by (auto simp: ld_loop_append simp del: upt_Suc ld_loop.simps split: sum.splits)
    have "length a1 = n" using Suc.IH [OF 1 Suc.prems(2) j] .
    then show ?thesis using 2
      by (auto simp: Let_def np_dot_def split: sum.splits if_splits)
  qed
qed

lemma ld_state_length:
  assumes "ld_state r (int k) = Inr (a, v)" "1 \<le> k"
  shows "length a = k"
proof -
  from assms(1) obtain g v0 where
    "ld_loop r (map int [1..<k]) ([g], v0) = Inr (a, v)"
    by (auto simp: ld_state_def ld_indices Let_def split: sum.splits)
  from ld_loop_length [OF this] assms(2) show ?thesis by simp
qed

lemma map2_const: "map2 (\<lambda>c b. k) cs bs = replicate (min (length cs) (length bs)) k"
  by (simp add: case_prod_unfold map_replicate_const)

lemma ld_loop_zero_divisor_step:
  assumes "Suc i < length r" "length a = i"
  shows "ld_loop r [int i] (a, Fin 0) = Inr (replicate (Suc i) NonFinite, NonFinite)"
proof -
  have "getitem r (int i + 1) = Inr (r ! Suc i)"
    using assms getitem_nat [of "Suc i" r] by (simp add: add.commute)
  moreover have "length (py_slice r 1 (int i + 1)) = i"
    using assms by (simp add: py_slice_tail)
  moreover have "x / Fin 0 = NonFinite" for x by (cases x) simp_all
  ultimately show ?thesis using assms(2)
    by (simp add: np_dot_def Let_def map2_const)
qed

text \<open>
  When a divisor of the recursion is zero (\<open>r[0]\<close>, or \<open>v\<close> at the start of a pass),
  \<open>ld\<close> returns without an exception, and every entry after the leading 1 is not
  finite.
\<close>

lemma ld_nonfinite_on_zero_divisor:
  assumes "1 \<le> p" "nat p < length R" "Fin 0 \<in> set (ld_divisors R p)"
  shows "ld R p = Inr (Fin 1 # replicate (nat p) NonFinite)"
proof -
  have g0: "getitem R 0 = Inr (R ! 0)"
    using assms(2) by (auto simp: getitem_def)
  have g1: "getitem R 1 = Inr (R ! 1)"
    using assms(1,2) by (auto simp: getitem_def)
  have "ld_state R p = Inr (replicate (nat p) NonFinite, NonFinite)"
  proof (cases "R ! 0 = Fin 0")
    case True
    have "ld_loop R (map int [1..<nat p]) (replicate 1 NonFinite, NonFinite) =
          Inr (replicate (nat p) NonFinite, NonFinite)"
      using assms(1,2) by (intro ld_loop_NonFinite) simp_all
    then show ?thesis using True
      by (cases "R ! 1") (simp_all add: ld_state_def g0 g1 ld_indices)
  next
    case False
    then obtain k where k: "1 \<le> k" "k < nat p" and
      v: "(case ld_state R (int k) of Inl e \<Rightarrow> NonFinite | Inr (a, v) \<Rightarrow> v) = Fin 0"
      using assms(3) by (auto simp: ld_divisors_def g0)
    then obtain a where a: "ld_state R (int k) = Inr (a, Fin 0)"
      by (auto split: sum.splits)
    have la: "length a = k" using ld_state_length [OF a k(1)] .
    have "[k..<nat p] = k # [Suc k..<nat p]" using k by (simp add: upt_rec)
    then have "ld_state R p = ld_loop R (int k # map int [Suc k..<nat p]) (a, Fin 0)"
      using ld_state_split [of k p R] k a by simp
    also have "\<dots> = ld_loop R (map int [Suc k..<nat p]) (replicate (Suc k) NonFinite, NonFinite)"
      using ld_loop_zero_divisor_step [of k R a]
        ld_loop_append [of R "[int k]" "map int [Suc k..<nat p]" "(a, Fin 0)"] la k assms(2)
      by (simp del: ld_loop.simps)
    also have "\<dots> = Inr (replicate (nat p) NonFinite, NonFinite)"
      using k assms(2) by (intro ld_loop_NonFinite) simp_all
    finally show ?thesis .
  qed
  then show ?thesis by (simp add: ld_def)
qed

section \<open>Analysis and synthesis filters\<close>

lemma sum_list_map2_Fin:
  "sum_list (map2 (*) (map Fin u) (map Fin v)) = Fin (sum_list (map2 (*) u v))"
proof (induction u arbitrary: v)
  case Nil
  then show ?case by simp
next
  case (Cons a u)
  then show ?case by (cases v) simp_all
qed

lemma sum_list_map2_zeros:
  "sum_list (map2 (*) (replicate p (Fin 0)) (map Fin v)) = Fin 0"
proof (induction p arbitrary: v)
  case 0
  then show ?case by simp
next
  case (Suc p)
  then show ?case by (cases v) simp_all
qed

lemma lfilter_run_inverse:
  "lfilter_run (Fin 1 # replicate p (Fin 0)) (map Fin as) (map Fin eh) (map Fin xh)
     (lfilter_run (Fin 1 # map Fin as) (replicate p (Fin 0)) (map Fin xh) (map Fin eh) (map Fin xs)) =
   map Fin xs"
proof (induction xs arbitrary: xh eh)
  case Nil
  then show ?case by simp
next
  case (Cons x xs)
  show ?case
    using Cons.IH [where xh = "x # xh" and eh = "(x + sum_list (map2 (*) as xh)) # eh"]
    by (simp add: Let_def sum_list_map2_Fin sum_list_map2_zeros)
qed

lemma map_div_one: "map ((\<lambda>c. c / Fin 1) \<circ> Fin) as = map Fin as"
  by (induction as) simp_all

lemma lfilter_analysis:
  "lfilter (Fin 1 # map Fin as) [Fin 1] x =
   Inr (lfilter_run (Fin 1 # map Fin as) (replicate (length as) (Fin 0)) [] [] x)"
  by (simp add: lfilter_def Let_def map_div_one)

lemma lfilter_synthesis:
  "lfilter [Fin 1] (Fin 1 # map Fin as) e =
   Inr (lfilter_run (Fin 1 # replicate (length as) (Fin 0)) (map Fin as) [] [] e)"
  by (simp add: lfilter_def Let_def map_div_one)

lemma lfilter_inverse:
  "\<exists>e. lfilter (Fin 1 # map Fin as) [Fin 1] (map Fin xs) = Inr e \<and>
       lfilter [Fin 1] (Fin 1 # map Fin as) e = Inr (map Fin xs)"
  using lfilter_run_inverse [of "length as" as "[]" "[]" xs]
  by (simp add: lfilter_analysis lfilter_synthesis)

lemma ld_head:
  assumes "ld r p = Inr (map Fin c)"
  shows "\<exists>as. c = 1 # as"
  using assms by (cases c) (auto simp: ld_def split: sum.splits)

text \<open>
  Claim C3 reads: for every finite block \<open>x\<close> and every coefficient vector \<open>a\<close> with
  \<open>a[0] = 1\<close>, in particular \<open>a = ld(bac(x, p), p)\<close>, the whitening filter
  \<open>lfilter(a, [1], x)\<close> followed by the synthesis filter \<open>lfilter([1], a, e)\<close>, both
  from a zero delay line, gives \<open>x\<close> back exactly. What holds: the round trip is exact
  for every block of real samples and every coefficient vector of real numbers that
  starts with 1, and so for \<open>lpc(x, p)\<close> whenever all its coefficients are finite.
\<close>

theorem whiten_resynthesize_identity:
  "(\<exists>e. lfilter (Fin 1 # map Fin as) [Fin 1] (map Fin xs) = Inr e \<and>
        lfilter [Fin 1] (Fin 1 # map Fin as) e = Inr (map Fin xs)) \<and>
   (lpc (map Fin xs) p = Inr (map Fin c) \<longrightarrow>
      (\<exists>e. lfilter (map Fin c) [Fin 1] (map Fin xs) = Inr e \<and>
           lfilter [Fin 1] (map Fin c) e = Inr (map Fin xs)))"
proof (intro conjI impI)
  show "\<exists>e. lfilter (Fin 1 # map Fin as) [Fin 1] (map Fin xs) = Inr e \<and>
            lfilter [Fin 1] (Fin 1 # map Fin as) e = Inr (map Fin xs)"
    by (rule lfilter_inverse)
next
  assume "lpc (map Fin xs) p = Inr (map Fin c)"
  then obtain r where "ld r p = Inr (map Fin c)"
    by (auto simp: lpc_def split: sum.splits)
  then obtain cs where "c = 1 # cs" using ld_head by blast
  then show "\<exists>e. lfilter (map Fin c) [Fin 1] (map Fin xs) = Inr e \<and>
                 lfilter [Fin 1] (map Fin c) e = Inr (map Fin xs)"
    using lfilter_inverse [of cs xs] by simp
qed

theorem whiten_resynthesize_identity_witness:
  "lpc (map Fin [1, 2]) 1 = Inr (map Fin [1, - (2 / 5)]) \<and>
   (\<exists>e. lfilter (map Fin [1, - (2 / 5)]) [Fin 1] (map Fin [1, 2]) = Inr e \<and>
        lfilter [Fin 1] (map Fin [1, - (2 / 5)]) e = Inr (map Fin [1, 2]))"
proof -
  have l: "lpc (map Fin [1, 2]) 1 = Inr (map Fin [1, - (2 / 5)])" by code_simp
  from whiten_resynthesize_identity [of "[]" "[1, 2]" 1 "[1, - (2 / 5)]"] l
  show ?thesis by blast
qed

text \<open>
  For the all-zero block \<open>[0, 0]\<close> and \<open>p = 1\<close> the coefficients are \<open>[1, NaN]\<close>:
  the vector starts with 1, the excitation is \<open>[0, NaN]\<close> and so is the resynthesis,
  which is not the block.
\<close>

theorem whiten_resynthesize_counterexample:
  "lpc [Fin 0, Fin 0] 1 = Inr [Fin 1, NonFinite] \<and>
   lfilter [Fin 1, NonFinite] [Fin 1] [Fin 0, Fin 0] = Inr [Fin 0, NonFinite] \<and>
   lfilter [Fin 1] [Fin 1, NonFinite] [Fin 0, NonFinite] = Inr [Fin 0, NonFinite]"
  by code_simp

section \<open>Parameters of the pitch shifter\<close>

lemma win_taper_zero: "win_taper 0 ov = Inr ([], - 1)"
  by (simp add: win_taper_def py_int_def py_range_def)

lemma pshift_zero_grain:
  "LPC_GS_pshift x f 0 P ov = Inr (replicate (length x) (Fin 0))"
proof -
  have "py_int (1 / 2) = 0" by (simp add: py_int_def)
  then show ?thesis
    by (simp add: LPC_GS_pshift_def win_taper_zero py_range_step_def)
qed

lemma py_int_ge:
  assumes "z \<le> 0"
  shows "z \<le> real_of_int (py_int z)"
proof (cases "z = 0")
  case True
  then show ?thesis by (simp add: py_int_def)
next
  case False
  then have "py_int z = \<lceil>z\<rceil>" using assms by (simp add: py_int_def)
  then show ?thesis by (simp only: le_of_int_ceiling)
qed

lemma win_taper_negative:
  assumes "G < 0" "0 \<le> ov" "ov < 1"
  shows "win_taper G ov = Inl ValueError"
proof -
  let ?z = "real_of_int G * ov / 2"
  have z: "?z \<le> 0" using assms by (simp add: mult_nonpos_nonneg)
  have "real_of_int G * ov > real_of_int G * 1"
    using assms by (intro mult_strict_left_mono_neg) simp_all
  then have g: "2 * ?z > real_of_int G" by simp
  have "real_of_int (py_int ?z) \<ge> ?z"
    using z by (rule py_int_ge)
  then have "real_of_int (2 * py_int ?z) > real_of_int G" using g by simp
  then have "G - 2 * py_int ?z < 0" by linarith
  then show ?thesis by (simp add: win_taper_def Let_def)
qed

text \<open>
  Claim C9 reads: a call with a non-positive grain size, a non-positive LPC order, an
  LPC order not below the grain size or a non-positive ratio raises an
  \<open>InvalidParameterError\<close> before any processing. The code checks no parameter. What
  holds: a grain size of 0 gives the all-zero signal of the input's length, for every
  other argument; a negative grain size with an overlap in \<open>[0, 1)\<close> ends the call in
  \<open>win_taper\<close>, before the first grain, with the \<open>ValueError\<close> of \<open>np.ones\<close>; an LPC
  order equal to the grain size is accepted (\<open>G = P = 2\<close>); and a negative ratio with
  the LPC order 0 is accepted when the input is too short for a grain.
\<close>

theorem pshift_parameters_not_validated:
  "LPC_GS_pshift x f 0 P ov = Inr (replicate (length x) (Fin 0)) \<and>
   (G < 0 \<and> 0 \<le> ov \<and> ov < 1 \<longrightarrow> LPC_GS_pshift x f G P ov = Inl ValueError) \<and>
   LPC_GS_pshift [Fin 1, Fin 2, Fin 3] 1 2 2 (1 / 5) = Inr [Fin 1, Fin 2, Fin 0] \<and>
   LPC_GS_pshift [Fin 1, Fin 2] (- 1) 2 0 (1 / 5) = Inr [Fin 0, Fin 0]"
proof (intro conjI impI)
  show "LPC_GS_pshift x f 0 P ov = Inr (replicate (length x) (Fin 0))"
    by (rule pshift_zero_grain)
  show "LPC_GS_pshift x f G P ov = Inl ValueError" if "G < 0 \<and> 0 \<le> ov \<and> ov < 1"
    using that by (simp add: LPC_GS_pshift_def win_taper_negative)
  show "LPC_GS_pshift [Fin 1, Fin 2, Fin 3] 1 2 2 (1 / 5) = Inr [Fin 1, Fin 2, Fin 0]"
    by code_simp
  show "LPC_GS_pshift [Fin 1, Fin 2] (- 1) 2 0 (1 / 5) = Inr [Fin 0, Fin 0]"
    by code_simp
qed

theorem pshift_parameters_not_validated_witness:
  "(- 2 :: int) < 0 \<and> (0::real) \<le> 1 / 5 \<and> (1 / 5 :: real) < 1 \<and>
   LPC_GS_pshift [Fin 1, Fin 2, Fin 3] 1 (- 2) 1 (1 / 5) = Inl ValueError"
  using pshift_parameters_not_validated
    [where G = "- 2" and ov = "1 / 5" and x = "[Fin 1, Fin 2, Fin 3]" and f = 1 and P = 1]
  by simp

theorem pshift_zero_grain_counterexample:
  "LPC_GS_pshift [Fin 1, Fin 2, Fin 3] 1 0 1 (1 / 5) = Inr [Fin 0, Fin 0, Fin 0]"
  by code_simp

section \<open>The Levinson-Durbin recursion solves the Toeplitz system\<close>

lemma nat_abs_diff: "nat \<bar>int a - int b\<bar> = (if b \<le> a then a - b else b - a)"
  by (auto simp: nat_diff_distrib' abs_if)

lemma toeplitz_entry_mirror:
  assumes "j < i" "m < i"
  shows "nat \<bar>int m - int (i - Suc j)\<bar> = nat \<bar>int (i - Suc m) - int j\<bar>"
proof -
  have "int (i - Suc j) = int i - 1 - int j" "int (i - Suc m) = int i - 1 - int m"
    using assms by simp_all
  then show ?thesis by simp
qed

lemma levinson_step:
  fixes rf bf :: "nat \<Rightarrow> real"
  defines "T \<equiv> \<lambda>m j. rf (nat \<bar>int m - int j\<bar>)"
  assumes I1: "\<forall>m<i. (\<Sum>j<i. bf j * T m j) = rf (m + 1)"
    and I2: "vv = rf 0 - (\<Sum>j<i. bf j * rf (j + 1))"
    and nz: "vv \<noteq> 0"
    and g: "g = (rf (i + 1) - (\<Sum>j<i. bf j * rf (i - j))) / vv"
    and b': "\<And>j. j < i \<Longrightarrow> bf' j = bf j - g * bf (i - Suc j)" "bf' i = g"
  shows "\<forall>m<i + 1. (\<Sum>j<i + 1. bf' j * T m j) = rf (m + 1)"
    and "vv * (1 - g * g) = rf 0 - (\<Sum>j<i + 1. bf' j * rf (j + 1))"
proof -
  have gv: "g * vv = rf (i + 1) - (\<Sum>j<i. bf j * rf (i - j))"
    using g nz by simp
  have split: "(\<Sum>j<i. bf' j * c j) = (\<Sum>j<i. bf j * c j) - g * (\<Sum>j<i. bf (i - Suc j) * c j)"
    for c :: "nat \<Rightarrow> real"
  proof -
    have "(\<Sum>j<i. bf' j * c j) = (\<Sum>j<i. bf j * c j - g * (bf (i - Suc j) * c j))"
      by (rule sum.cong) (simp_all add: b' algebra_simps)
    then show ?thesis by (simp add: sum_subtractf sum_distrib_left)
  qed
  have mirror: "(\<Sum>j<i. bf (i - Suc j) * c j) = (\<Sum>j<i. bf j * c (i - Suc j))"
    for c :: "nat \<Rightarrow> real"
  proof -
    have "(\<Sum>j<i. bf j * c (i - Suc j)) = (\<Sum>j<i. bf (i - Suc j) * c (i - Suc (i - Suc j)))"
      by (rule sum.nat_diff_reindex [symmetric])
    also have "\<dots> = (\<Sum>j<i. bf (i - Suc j) * c j)"
      by (rule sum.cong) simp_all
    finally show ?thesis by simp
  qed
  show "\<forall>m<i + 1. (\<Sum>j<i + 1. bf' j * T m j) = rf (m + 1)"
  proof (intro allI impI)
    fix m assume m: "m < i + 1"
    show "(\<Sum>j<i + 1. bf' j * T m j) = rf (m + 1)"
    proof (cases "m < i")
      case True
      have "(\<Sum>j<i. bf j * T m (i - Suc j)) = (\<Sum>j<i. bf j * T (i - Suc m) j)"
      proof (rule sum.cong)
        fix j assume "j \<in> {..<i}"
        then have "j < i" by simp
        from toeplitz_entry_mirror [OF this True]
        show "bf j * T m (i - Suc j) = bf j * T (i - Suc m) j"
          by (simp only: T_def)
      qed simp
      also have "\<dots> = rf (i - Suc m + 1)" using I1 True by simp
      also have "\<dots> = rf (i - m)" using True by (simp add: Suc_diff_Suc)
      finally have r: "(\<Sum>j<i. bf (i - Suc j) * T m j) = rf (i - m)"
        using mirror [of "T m"] by simp
      have "T m i = rf (i - m)" using True by (simp add: T_def nat_abs_diff)
      then have "(\<Sum>j<i + 1. bf' j * T m j) = (\<Sum>j<i. bf' j * T m j) + g * rf (i - m)"
        by (simp add: b')
      also have "\<dots> = rf (m + 1)"
        using I1 True by (simp add: split r)
      finally show ?thesis .
    next
      case False
      then have mi: "m = i" using m by simp
      have Ti: "T i j = rf (i - j)" if "j < i" for j using that by (simp add: T_def nat_abs_diff)
      have "(\<Sum>j<i. bf j * T i (i - Suc j)) = (\<Sum>j<i. bf j * rf (j + 1))"
        by (rule sum.cong) (simp_all add: T_def nat_abs_diff Suc_diff_Suc)
      then have r: "(\<Sum>j<i. bf (i - Suc j) * T i j) = (\<Sum>j<i. bf j * rf (j + 1))"
        using mirror [of "T i"] by simp
      have d: "(\<Sum>j<i. bf j * T i j) = (\<Sum>j<i. bf j * rf (i - j))"
        by (rule sum.cong) (simp_all add: Ti)
      have e: "(\<Sum>j<i. bf' j * T i j) =
               (\<Sum>j<i. bf j * rf (i - j)) - g * (\<Sum>j<i. bf j * rf (j + 1))"
        using split [of "T i"] by (simp only: r d)
      have "(\<Sum>j<i + 1. bf' j * T i j) = (\<Sum>j<i. bf' j * T i j) + g * rf 0"
        by (simp add: b' T_def)
      also have "\<dots> = (\<Sum>j<i. bf j * rf (i - j)) + g * vv"
        unfolding e I2 by (simp add: algebra_simps)
      also have "\<dots> = rf (i + 1)" by (simp add: gv)
      finally show ?thesis by (simp add: mi)
    qed
  qed
  have "(\<Sum>j<i. bf j * rf (i - Suc j + 1)) = (\<Sum>j<i. bf j * rf (i - j))"
    by (rule sum.cong) (simp_all add: Suc_diff_Suc)
  then have r2: "(\<Sum>j<i. bf (i - Suc j) * rf (j + 1)) = (\<Sum>j<i. bf j * rf (i - j))"
    using mirror [of "\<lambda>j. rf (j + 1)"] by (simp add: Suc_diff_Suc)
  have e2: "(\<Sum>j<i. bf' j * rf (j + 1)) =
            (\<Sum>j<i. bf j * rf (j + 1)) - g * (\<Sum>j<i. bf j * rf (i - j))"
    using split [of "\<lambda>j. rf (j + 1)"] by (simp only: r2)
  have "rf 0 - (\<Sum>j<i + 1. bf' j * rf (j + 1)) =
        rf 0 - (\<Sum>j<i. bf' j * rf (j + 1)) - g * rf (i + 1)"
    by (simp add: b')
  also have "\<dots> = vv - g * (rf (i + 1) - (\<Sum>j<i. bf j * rf (i - j)))"
    unfolding e2 I2 by (simp add: algebra_simps)
  also have "\<dots> = vv * (1 - g * g)"
    unfolding gv [symmetric] by (simp add: algebra_simps)
  finally show "vv * (1 - g * g) = rf 0 - (\<Sum>j<i + 1. bf' j * rf (j + 1))" by simp
qed

lemma solves_toeplitz_iff:
  "solves_toeplitz r b \<longleftrightarrow>
   (\<forall>m<length b. (\<Sum>j<length b. b ! j * r ! nat \<bar>int m - int j\<bar>) = r ! (m + 1))"
  by (auto simp: solves_toeplitz_def toeplitz_row_def list_all_iff)

lemma levinson_step_list:
  assumes "solves_toeplitz r b" "length b = i"
    and "vv = r ! 0 - (\<Sum>j<i. b ! j * r ! (j + 1))" "vv \<noteq> 0"
    and "g = (r ! (i + 1) - (\<Sum>j<i. b ! j * r ! (i - j))) / vv"
    and "b' = map (\<lambda>j. b ! j - g * b ! (i - Suc j)) [0..<i] @ [g]"
  shows "solves_toeplitz r b'"
    and "vv * (1 - g * g) = r ! 0 - (\<Sum>j<i + 1. b' ! j * r ! (j + 1))"
proof -
  have len: "length b' = i + 1" using assms(6) by simp
  have n1: "b' ! j = b ! j - g * b ! (i - Suc j)" if "j < i" for j
    using that assms(6) by (simp add: nth_append)
  have n2: "b' ! i = g" using assms(6) by (simp add: nth_append)
  have I1: "\<forall>m<i. (\<Sum>j<i. b ! j * r ! nat \<bar>int m - int j\<bar>) = r ! (m + 1)"
    using assms(1,2) by (simp add: solves_toeplitz_iff)
  note st = levinson_step [of i "(!) b" "(!) r" vv g "(!) b'", OF I1 assms(3,4,5) n1 n2]
  show "solves_toeplitz r b'"
    using st(1) by (simp add: solves_toeplitz_iff len)
  show "vv * (1 - g * g) = r ! 0 - (\<Sum>j<i + 1. b' ! j * r ! (j + 1))"
    using st(2) .
qed

lemma rev_update_natural:
  assumes "length b = i"
  shows "rev (map2 (\<lambda>c d. c - g * d) (rev b) b) = map (\<lambda>j. b ! j - g * b ! (i - Suc j)) [0..<i]"
proof (rule nth_equalityI)
  show "length (rev (map2 (\<lambda>c d. c - g * d) (rev b) b)) =
        length (map (\<lambda>j. b ! j - g * b ! (i - Suc j)) [0..<i])"
    using assms by simp
next
  fix j assume "j < length (rev (map2 (\<lambda>c d. c - g * d) (rev b) b))"
  then have j: "j < i" using assms by simp
  then have k: "i - Suc j < i" "i - Suc (i - Suc j) = j" by auto
  show "rev (map2 (\<lambda>c d. c - g * d) (rev b) b) ! j =
        map (\<lambda>j. b ! j - g * b ! (i - Suc j)) [0..<i] ! j"
    using j k assms by (simp add: rev_nth)
qed

lemma dot_rev_natural:
  assumes "length b = i" "i < length r"
  shows "sum_list (map2 (*) (rev b) (take i (drop 1 r))) = (\<Sum>j<i. b ! j * r ! (i - j))"
proof -
  have l: "length (map2 (*) (rev b) (take i (drop 1 r))) = i" using assms by simp
  have "sum_list (map2 (*) (rev b) (take i (drop 1 r))) =
        (\<Sum>k<i. map2 (*) (rev b) (take i (drop 1 r)) ! k)"
    unfolding sum_list_sum_nth l by (simp add: atLeast0LessThan)
  also have "\<dots> = (\<Sum>k<i. b ! (i - Suc k) * r ! (i - (i - Suc k)))"
  proof (rule sum.cong)
    fix k assume "k \<in> {..<i}"
    then have k: "k < i" by simp
    then have "i - (i - Suc k) = Suc k" by simp
    then show "map2 (*) (rev b) (take i (drop 1 r)) ! k = b ! (i - Suc k) * r ! (i - (i - Suc k))"
      using k assms by (simp add: rev_nth)
  qed simp
  also have "\<dots> = (\<Sum>j<i. b ! j * r ! (i - j))"
    by (rule sum.nat_diff_reindex)
  finally show ?thesis .
qed

lemma map2_Fin_update:
  "map2 (\<lambda>c d. c - Fin g * d) (map Fin u) (map Fin v) = map Fin (map2 (\<lambda>c d. c - g * d) u v)"
proof (induction u arbitrary: v)
  case Nil
  then show ?case by simp
next
  case (Cons a u)
  then show ?case by (cases v) simp_all
qed

lemma ld_loop_finite_step:
  assumes "length as = i" "Suc i < length r" "vv \<noteq> 0"
    and "g = (r ! (i + 1) - sum_list (map2 (*) as (take i (drop 1 r)))) / vv"
  shows "ld_loop (map Fin r) [int i] (map Fin as, Fin vv) =
         Inr (map Fin (g # map2 (\<lambda>c d. c - g * d) as (rev as)), Fin (vv * (1 - g * g)))"
proof -
  have gi: "getitem (map Fin r) (int i + 1) = Inr (Fin (r ! Suc i))"
    using assms(2) getitem_nat [of "Suc i" "map Fin r"] by (simp add: add.commute)
  have sl: "py_slice (map Fin r) 1 (int i + 1) = map Fin (take i (drop 1 r))"
    using assms(2) py_slice_tail [of i "map Fin r"] by (simp add: take_map drop_map)
  have dt: "np_dot (map Fin as) (map Fin (take i (drop (Suc 0) r))) =
            Inr (Fin (sum_list (map2 (*) as (take i (drop (Suc 0) r)))))"
    using assms(1,2) by (simp add: np_dot_def sum_list_map2_Fin)
  have tk: "rev (take i (map Fin as)) = map Fin (rev as)"
    using assms(1) by (simp add: rev_map)
  have g': "(r ! Suc i - sum_list (map2 (*) as (take i (drop (Suc 0) r)))) / vv = g"
    using assms(4) by simp
  show ?thesis
    using assms(3) by (simp add: gi sl dt tk Let_def g' map2_Fin_update)
qed

lemma ld_state_order_one:
  assumes "1 < length r" "r ! 0 \<noteq> 0"
  shows "ld_state (map Fin r) 1 =
         Inr (map Fin (rev [r ! 1 / r ! 0]), Fin ((1 - (r ! 1 / r ! 0) * (r ! 1 / r ! 0)) * r ! 0))"
proof -
  have "getitem (map Fin r) 1 = Inr (Fin (r ! 1))" "getitem (map Fin r) 0 = Inr (Fin (r ! 0))"
    using assms(1) by (auto simp: getitem_def)
  then show ?thesis
    using assms(2) by (simp add: ld_state_def py_range_def Let_def)
qed

lemma ld_state_invariant:
  assumes "nat p < length r" "Fin 0 \<notin> set (ld_divisors (map Fin r) p)"
  shows "1 \<le> n \<Longrightarrow> n \<le> nat p \<Longrightarrow>
         \<exists>b vv. ld_state (map Fin r) (int n) = Inr (map Fin (rev b), Fin vv) \<and> length b = n \<and>
                solves_toeplitz r b \<and> vv = r ! 0 - (\<Sum>j<n. b ! j * r ! (j + 1))"
proof (induction n)
  case 0
  then show ?case by simp
next
  case (Suc n)
  have r0: "r ! 0 \<noteq> 0"
  proof -
    have "getitem (map Fin r) 0 = Inr (Fin (r ! 0))"
      using assms(1) by (auto simp: getitem_def)
    then have "Fin (r ! 0) \<in> set (ld_divisors (map Fin r) p)"
      by (simp add: ld_divisors_def)
    then show ?thesis using assms(2) by auto
  qed
  show ?case
  proof (cases "n = 0")
    case True
    let ?g = "r ! 1 / r ! 0"
    have "ld_state (map Fin r) (int (Suc n)) =
          Inr (map Fin (rev [?g]), Fin ((1 - ?g * ?g) * r ! 0))"
      using ld_state_order_one [OF _ r0] Suc.prems assms(1) True by simp
    moreover have "solves_toeplitz r [?g]"
      using r0 by (simp add: solves_toeplitz_iff)
    moreover have "(1 - ?g * ?g) * r ! 0 = r ! 0 - (\<Sum>j<Suc n. [?g] ! j * r ! (j + 1))"
      using r0 True by (simp add: field_simps)
    ultimately show ?thesis using True by (intro exI [of _ "[?g]"] exI) simp
  next
    case False
    then have n: "1 \<le> n" "n \<le> nat p" "n < nat p" using Suc.prems by simp_all
    from Suc.IH [OF n(1,2)] obtain b vv where
      st: "ld_state (map Fin r) (int n) = Inr (map Fin (rev b), Fin vv)" and
      len: "length b = n" and sol: "solves_toeplitz r b" and
      vv: "vv = r ! 0 - (\<Sum>j<n. b ! j * r ! (j + 1))"
      by blast
    have "n \<in> set [1..<nat p]" using n by simp
    then have "(case ld_state (map Fin r) (int n) of Inl e \<Rightarrow> NonFinite | Inr (a, v) \<Rightarrow> v)
               \<in> set (ld_divisors (map Fin r) p)"
      unfolding ld_divisors_def by (simp del: upt_Suc set_upt)
    then have nz: "vv \<noteq> 0" using assms(2) st by auto
    define g where "g = (r ! (n + 1) - (\<Sum>j<n. b ! j * r ! (n - j))) / vv"
    define b' where "b' = map (\<lambda>j. b ! j - g * b ! (n - Suc j)) [0..<n] @ [g]"
    have lr: "Suc n < length r" "n < length r" using n assms(1) by simp_all
    have g2: "g = (r ! (n + 1) - sum_list (map2 (*) (rev b) (take n (drop 1 r)))) / vv"
      using dot_rev_natural [OF len lr(2)] by (simp add: g_def)
    have "ld_state (map Fin r) (int (Suc n)) =
          (case ld_state (map Fin r) (int n) of
             Inl e \<Rightarrow> Inl e
           | Inr s \<Rightarrow> ld_loop (map Fin r) (map int [n..<nat (int (Suc n))]) s)"
      using n(1) by (intro ld_state_split) simp_all
    moreover have "map int [n..<nat (int (Suc n))] = [int n]"
      by (simp only: nat_int upt_Suc upt_conv_Nil) simp
    ultimately have "ld_state (map Fin r) (int (Suc n)) =
          ld_loop (map Fin r) [int n] (map Fin (rev b), Fin vv)"
      by (simp only: st sum.case)
    also have "\<dots> = Inr (map Fin (g # map2 (\<lambda>c d. c - g * d) (rev b) (rev (rev b))),
                          Fin (vv * (1 - g * g)))"
      using len lr(1) nz g2 by (intro ld_loop_finite_step) simp_all
    also have "g # map2 (\<lambda>c d. c - g * d) (rev b) (rev (rev b)) = rev b'"
      unfolding b'_def rev_update_natural [OF len, of g, symmetric] by simp
    finally have 1: "ld_state (map Fin r) (int (Suc n)) = Inr (map Fin (rev b'), Fin (vv * (1 - g * g)))" .
    note step = levinson_step_list [OF sol len vv nz g_def b'_def]
    have "length b' = Suc n" using len by (simp add: b'_def)
    then show ?thesis using 1 step by (intro exI [of _ b'] exI) simp
  qed
qed

text \<open>
  Claim C5 reads: for an autocorrelation vector \<open>r[0..p]\<close> with \<open>p \<ge> 1\<close> and no zero
  divisor in the recursion, \<open>ld(r, p)\<close> returns \<open>p + 1\<close> coefficients, the first exactly
  1, the others the negated solution of the Toeplitz system in the order
  \<open>[-a_p, ..., -a_1]\<close>. The code reverses its working vector before it returns, so the
  order is \<open>[1, -a_1, ..., -a_p]\<close>: the solution \<open>a_1 .. a_p\<close> in its own order.
\<close>

theorem ld_solves_toeplitz:
  assumes "1 \<le> p" "nat p < length r" "Fin 0 \<notin> set (ld_divisors (map Fin r) p)"
  shows "\<exists>a. ld (map Fin r) p = Inr (Fin 1 # map (\<lambda>c. Fin (- c)) a) \<and>
             length a = nat p \<and> solves_toeplitz r a"
proof -
  have "1 \<le> nat p" using assms(1) by simp
  from ld_state_invariant [OF assms(2,3) this] obtain b vv where
    "ld_state (map Fin r) (int (nat p)) = Inr (map Fin (rev b), Fin vv)"
    "length b = nat p" "solves_toeplitz r b"
    by blast
  moreover have "int (nat p) = p" using assms(1) by simp
  ultimately show ?thesis
    by (intro exI [of _ b]) (simp add: ld_def rev_map comp_def)
qed

theorem ld_solves_toeplitz_witness:
  "(1::int) \<le> 2 \<and> nat 2 < length [1, 1 / 2, 0 :: real] \<and>
   Fin 0 \<notin> set (ld_divisors (map Fin [1, 1 / 2, 0]) 2) \<and>
   (\<exists>a. ld (map Fin [1, 1 / 2, 0]) 2 = Inr (Fin 1 # map (\<lambda>c. Fin (- c)) a) \<and>
        length a = nat 2 \<and> solves_toeplitz [1, 1 / 2, 0] a)"
proof -
  have d: "Fin 0 \<notin> set (ld_divisors (map Fin [1, 1 / 2, 0]) 2)" by code_simp
  have l: "nat 2 < length [1, 1 / 2, 0 :: real]" by simp
  from ld_solves_toeplitz [OF _ l d] d show ?thesis by simp
qed

theorem ld_coefficient_order_counterexample:
  "Fin 0 \<notin> set (ld_divisors (map Fin [1, 1 / 2, 0]) 2) \<and>
   ld (map Fin [1, 1 / 2, 0]) 2 = Inr [Fin 1, Fin (- (2 / 3)), Fin (1 / 3)] \<and>
   solves_toeplitz [1, 1 / 2, 0] [2 / 3, - (1 / 3)] \<and>
   \<not> (\<exists>a. length a = 2 \<and> solves_toeplitz [1, 1 / 2, 0] a \<and>
          ld (map Fin [1, 1 / 2, 0]) 2 = Inr (Fin 1 # map (\<lambda>c. Fin (- c)) (rev a)))"
proof -
  have d: "Fin 0 \<notin> set (ld_divisors (map Fin [1, 1 / 2, 0]) 2)" by code_simp
  have l: "ld (map Fin [1, 1 / 2, 0]) 2 = Inr [Fin 1, Fin (- (2 / 3)), Fin (1 / 3)]" by code_simp
  have s: "solves_toeplitz [1, 1 / 2, 0] [2 / 3, - (1 / 3)]"
    by (simp add: solves_toeplitz_iff lessThan_Suc All_less_Suc numeral_2_eq_2)
  have n: False if a: "length a = 2" "solves_toeplitz [1, 1 / 2, 0] a"
    "ld (map Fin [1, 1 / 2, 0]) 2 = Inr (Fin 1 # map (\<lambda>c. Fin (- c)) (rev a))" for a
  proof -
    from a(1) obtain x y where xy: "a = [x, y]"
      by (auto simp: length_Suc_conv numeral_2_eq_2)
    from a(3) have "y = 2 / 3" "x = - (1 / 3)" unfolding l xy by simp_all
    then show False using a(2) unfolding xy
      by (simp add: solves_toeplitz_iff lessThan_Suc All_less_Suc numeral_2_eq_2)
  qed
  show ?thesis using d l s n by blast
qed

section \<open>The pitch shifter on an all-zero signal\<close>

lemma py_int_nonneg: "0 \<le> t \<Longrightarrow> py_int t = \<lfloor>t\<rfloor>"
  by (simp add: py_int_def)

lemma win_taper_valid:
  assumes "2 \<le> G" "0 \<le> ov" "ov < 1"
  shows "\<exists>win stride. win_taper G ov = Inr (win, stride) \<and> length win = nat G \<and> 1 \<le> stride"
proof -
  define z where "z = real_of_int G * ov / 2"
  define R where "R = py_int z"
  have z0: "0 \<le> z" using assms by (simp add: z_def)
  have R: "R = \<lfloor>z\<rfloor>" using z0 by (simp add: R_def py_int_nonneg)
  have R0: "0 \<le> R" using z0 R by simp
  have "real_of_int G * ov < real_of_int G * 1"
    using assms by (intro mult_strict_left_mono) simp_all
  then have "2 * z < real_of_int G" by (simp add: z_def)
  moreover have "real_of_int R \<le> z" unfolding R by (rule of_int_floor_le)
  ultimately have "real_of_int (2 * R) < real_of_int G" by simp
  then have R2: "2 * R < G" by linarith
  have "win_taper G ov =
        Inr (map (\<lambda>k. Fin (real_of_int k) / Fin (real_of_int R)) (py_range R) @
             replicate (nat (G - 2 * R)) (Fin 1) @
             rev (map (\<lambda>k. Fin (real_of_int k) / Fin (real_of_int R)) (py_range R)),
             G - R - 1)"
    using R2 by (simp add: win_taper_def Let_def R_def z_def)
  moreover have "nat R + nat (G - 2 * R) + nat R = nat G" using R0 R2 by linarith
  moreover have "1 \<le> G - R - 1" using R0 R2 assms(1) by linarith
  ultimately show ?thesis by (simp add: py_range_def)
qed

lemma py_range_step_positive:
  assumes "1 \<le> step" "py_range_step stop step = Inr ns"
  shows "(\<forall>n\<in>set ns. 0 \<le> n \<and> n < stop) \<and> (0 < stop \<longrightarrow> (\<exists>ms. ns = 0 # ms))"
    and "stop \<le> 0 \<Longrightarrow> ns = []"
proof -
  define c where "c = nat ((stop + step - 1) div step)"
  have ns: "ns = map (\<lambda>k. int k * step) [0..<c]"
    using assms by (simp add: py_range_step_def c_def)
  have bound: "int k * step < stop" if "k < c" for k
  proof -
    have "int k + 1 \<le> (stop + step - 1) div step" using that by (simp add: c_def)
    then have "(int k + 1) * step \<le> ((stop + step - 1) div step) * step"
      using assms(1) by (intro mult_right_mono) simp_all
    also have "\<dots> \<le> stop + step - 1"
      using assms(1) div_mult_mod_eq [of "stop + step - 1" step]
        pos_mod_sign [of step "stop + step - 1"]
      by linarith
    finally show ?thesis by (simp add: algebra_simps)
  qed
  have pos: "0 < c" if "0 < stop"
  proof -
    have "step \<le> stop + step - 1" using that by simp
    then have "step div step \<le> (stop + step - 1) div step"
      using assms(1) by (intro zdiv_mono1) simp_all
    then show ?thesis using assms(1) by (simp add: c_def)
  qed
  show "(\<forall>n\<in>set ns. 0 \<le> n \<and> n < stop) \<and> (0 < stop \<longrightarrow> (\<exists>ms. ns = 0 # ms))"
  proof (intro conjI impI ballI)
    fix n assume "n \<in> set ns"
    then obtain k where "k < c" "n = int k * step" using ns by auto
    then show "0 \<le> n" "n < stop" using bound assms(1) by simp_all
  next
    assume "0 < stop"
    then have "[0..<c] = 0 # [1..<c]" using pos by (simp add: upt_rec)
    then show "\<exists>ms. ns = 0 # ms" using ns by simp
  qed
  show "ns = []" if "stop \<le> 0"
  proof -
    have "(stop + step - 1) div step \<le> (step - 1) div step"
      using that assms(1) by (intro zdiv_mono1) simp_all
    also have "\<dots> = 0" using assms(1) by (intro div_pos_pos_trivial) simp_all
    finally have "(stop + step - 1) div step \<le> 0" .
    then show ?thesis by (simp add: ns c_def)
  qed
qed

lemma py_slice_replicate:
  assumes "0 \<le> n" "0 \<le> k" "n + k \<le> int N"
  shows "py_slice (replicate N c) n (n + k) = replicate (nat k) c"
proof -
  have "slice_bound N n = nat n" "slice_bound N (n + k) = nat n + nat k"
    using assms by (simp_all add: slice_bound_def nat_add_distrib)
  moreover have "nat k \<le> N - nat n" using assms by linarith
  ultimately show ?thesis by (simp add: py_slice_def min_def)
qed

lemma ld_zero_energy:
  assumes "1 \<le> p" "nat p < length r" "r ! 0 = Fin 0"
  shows "ld r p = Inr (Fin 1 # replicate (nat p) NonFinite)"
proof -
  have g0: "getitem r 0 = Inr (Fin 0)"
    using assms by (auto simp: getitem_def)
  have g1: "getitem r 1 = Inr (r ! 1)"
    using assms by (auto simp: getitem_def)
  have "ld_loop r (map int [1..<nat p]) (replicate 1 NonFinite, NonFinite) =
        Inr (replicate (nat p) NonFinite, NonFinite)"
    using assms by (intro ld_loop_NonFinite) simp_all
  then have "ld_state r p = Inr (replicate (nat p) NonFinite, NonFinite)"
    by (cases "r ! 1") (simp_all add: ld_state_def g0 g1 ld_indices)
  then show ?thesis by (simp add: ld_def)
qed

lemma bac_zero_block:
  assumes "1 \<le> L" "0 \<le> P"
  shows "bac (replicate L (Fin 0)) P = Inr (replicate (nat P + 1) (Fin 0))"
proof -
  have z: "replicate L (Fin 0) = map Fin (replicate L 0)" by simp
  have "fold (\<lambda>n s. s + map Fin (replicate L 0) ! n * map Fin (replicate L 0) ! (n + m))
          [0..<L - m] (Fin 0) = Fin 0" for m
  proof -
    have b: "\<forall>n\<in>set [0..<L - m]. n < length (replicate L (0::real)) \<and>
                                   n + m < length (replicate L (0::real))"
      by auto
    have "map (\<lambda>n. replicate L (0::real) ! n * replicate L 0 ! (n + m)) [0..<L - m] =
          map (\<lambda>n. 0) [0..<L - m]"
      by (rule map_cong) auto
    then have "(\<Sum>n\<leftarrow>[0..<L - m]. replicate L (0::real) ! n * replicate L 0 ! (n + m)) = 0"
      by (simp only: sum_list_0)
    then show ?thesis using fold_Fin_sum [OF b, of 0] by simp
  qed
  then have "bac (map Fin (replicate L 0)) P = Inr (map (\<lambda>m. Fin 0) [0..<nat P + 1])"
    using assms(1) bac_entries [OF assms(2), of "map Fin (replicate L 0)"]
    by (simp del: upt_Suc map_replicate)
  then show ?thesis unfolding z by (simp add: map_replicate_const del: upt_Suc map_replicate)
qed

lemma lpc_zero_block:
  assumes "1 \<le> L" "1 \<le> P"
  shows "lpc (replicate L (Fin 0)) P = Inr (Fin 1 # replicate (nat P) NonFinite)"
proof -
  have "bac (replicate L (Fin 0)) P = Inr (replicate (nat P + 1) (Fin 0))"
    using assms by (intro bac_zero_block) simp_all
  moreover have "ld (replicate (nat P + 1) (Fin 0)) P = Inr (Fin 1 # replicate (nat P) NonFinite)"
    using assms(2) by (intro ld_zero_energy) simp_all
  ultimately show ?thesis by (simp add: lpc_def)
qed

lemma lfilter_run_length [simp]: "length (lfilter_run b a xh yh x) = length x"
  by (induction x arbitrary: xh yh) (simp_all add: Let_def)

lemma lfilter_length:
  assumes "a0 \<noteq> Fin 0"
  shows "\<exists>y. lfilter b (a0 # as) x = Inr y \<and> length y = length x"
  using assms by (simp add: lfilter_def Let_def)

lemma resample_length:
  assumes "0 < f"
  shows "\<exists>y. resample e f = Inr y \<and> length y = nat \<lfloor>real (length e) / f\<rfloor>"
proof -
  have "0 \<le> real (length e) / f" using assms by simp
  then have "\<not> real (length e) / f < 0" by (simp add: not_less)
  then show ?thesis using assms by (simp add: resample_def Let_def py_range_def)
qed

lemma lfilter_synthesis_nonfinite:
  assumes "1 \<le> P" "2 \<le> length e"
  shows "\<exists>w. lfilter [Fin 1] (Fin 1 # replicate P NonFinite) e = Inr w \<and>
             length w = length e \<and> w ! 1 = NonFinite"
proof -
  obtain e0 e1 es where e: "e = e0 # e1 # es"
    using assms(2) by (cases e; cases "tl e") auto
  obtain Q where P: "P = Suc Q" using assms(1) by (cases P) auto
  have "lfilter [Fin 1] (Fin 1 # replicate P NonFinite) e =
        Inr (lfilter_run (Fin 1 # replicate P (Fin 0)) (replicate P NonFinite) [] [] e)"
    by (simp add: lfilter_def Let_def)
  moreover have "lfilter_run (Fin 1 # replicate P (Fin 0)) (replicate P NonFinite) [] [] e ! 1 =
                 NonFinite"
    unfolding e P by (simp add: Let_def)
  ultimately show ?thesis by simp
qed

lemma iadd_slice_full:
  assumes "0 \<le> n" "0 \<le> G" "n + G \<le> int (length y)" "length v = nat G"
  shows "\<exists>y'. iadd_slice y n (n + G) v = Inr y' \<and> length y' = length y \<and>
              (\<forall>j<length y. y' ! j =
                 (if nat n \<le> j \<and> j < nat n + nat G then y ! j + v ! (j - nat n) else y ! j))"
proof -
  define lo where "lo = nat n"
  define m where "m = nat G"
  define view where "view = take m (drop lo y)"
  have b: "slice_bound (length y) n = lo" "slice_bound (length y) (n + G) = lo + m"
    using assms by (simp_all add: slice_bound_def nat_add_distrib lo_def m_def)
  have lm: "lo + m \<le> length y" using assms unfolding lo_def m_def by linarith
  then have lv: "length view = m" by (simp add: view_def)
  define y' where "y' = take lo y @ map2 (+) view v @ drop (lo + m) y"
  have 1: "iadd_slice y n (n + G) v = Inr y'"
    using lv assms(4) by (simp add: iadd_slice_def b Let_def y'_def view_def m_def)
  have 2: "length y' = length y" using lm lv assms(4) by (simp add: y'_def m_def)
  have 3: "y' ! j = (if lo \<le> j \<and> j < lo + m then y ! j + v ! (j - lo) else y ! j)"
    if "j < length y" for j
  proof -
    consider "j < lo" | "lo \<le> j" "j < lo + m" | "lo + m \<le> j" by linarith
    then show ?thesis
    proof cases
      case 1
      then show ?thesis using lm by (simp add: y'_def nth_append)
    next
      case 2
      then have jl: "j - lo < nat G" unfolding m_def by linarith
      then have "map2 (+) view v ! (j - lo) = y ! j + v ! (j - lo)"
        using 2 lv assms(4) lm by (simp add: view_def m_def)
      then show ?thesis using 2 jl lm lv assms(4) by (simp add: y'_def nth_append m_def)
    next
      case 3
      have a: "length (take lo y) = lo" using lm by simp
      have b: "length (map2 (+) view v) = m" using lv assms(4) by (simp add: m_def)
      have c: "\<not> j < lo" "\<not> j - lo < m" "lo + m + (j - lo - m) = j" using 3 by simp_all
      have "y' ! j = (map2 (+) view v @ drop (lo + m) y) ! (j - lo)"
        unfolding y'_def using c(1) a by (simp only: nth_append if_False)
      also have "\<dots> = drop (lo + m) y ! (j - lo - m)"
        using c(2) b by (simp only: nth_append if_False)
      also have "\<dots> = y ! j" using lm c(3) by (simp only: nth_drop)
      finally show ?thesis using 3 by simp
    qed
  qed
  show ?thesis using 1 2 3 by (auto simp: lo_def m_def)
qed

lemma grain_step_zero:
  assumes "2 \<le> G" "1 \<le> P" "0 < f" "1 \<le> igs" "\<lfloor>real_of_int igs / f\<rfloor> = G"
    and "length win = nat G" "0 \<le> n" "n + max igs G \<le> int N" "length y = N"
  shows "\<exists>y'. grain_step (replicate N (Fin 0)) f G P igs win n y = Inr y' \<and> length y' = N \<and>
              (y ! 1 = NonFinite \<or> n = 0 \<longrightarrow> y' ! 1 = NonFinite)"
proof -
  have sl: "py_slice (replicate N (Fin 0)) n (n + igs) = replicate (nat igs) (Fin 0)"
    using assms by (intro py_slice_replicate) simp_all
  have lp: "lpc (replicate (nat igs) (Fin 0)) P = Inr (Fin 1 # replicate (nat P) NonFinite)"
    using assms by (intro lpc_zero_block) simp_all
  obtain e1 where e1: "lfilter (Fin 1 # replicate (nat P) NonFinite) [Fin 1]
                         (replicate (nat igs) (Fin 0)) = Inr e1" "length e1 = nat igs"
    using lfilter_length [of "Fin 1" "Fin 1 # replicate (nat P) NonFinite" "[]"
        "replicate (nat igs) (Fin 0)"]
    by auto
  have "real (length e1) = real_of_int igs" using e1(2) assms(4) by simp
  then obtain e2 where e2: "resample e1 f = Inr e2" "length e2 = nat G"
    using resample_length [OF assms(3), of e1] assms(5) by auto
  have "1 \<le> nat P" "2 \<le> length e2" using assms(1,2) e2(2) by simp_all
  from lfilter_synthesis_nonfinite [OF this] obtain w2 where
    w2: "lfilter [Fin 1] (Fin 1 # replicate (nat P) NonFinite) e2 = Inr w2"
        "length w2 = nat G" "w2 ! 1 = NonFinite"
    using e2(2) by auto
  define ww where "ww = map2 (*) w2 win"
  have ww: "np_mul w2 win = Inr ww" "length ww = nat G" "ww ! 1 = NonFinite"
    using w2 assms(1,6) by (simp_all add: np_mul_def ww_def)
  have "n + G \<le> int (length y)" using assms(8,9) by simp
  from iadd_slice_full [OF assms(7) _ this ww(2)] assms(1) obtain y' where
    y': "iadd_slice y n (n + G) ww = Inr y'" "length y' = length y"
        "\<forall>j<length y. y' ! j =
           (if nat n \<le> j \<and> j < nat n + nat G then y ! j + ww ! (j - nat n) else y ! j)"
    by auto
  have N: "1 < length y" using assms(1,7,8,9) by simp
  have "y' ! 1 = NonFinite" if "y ! 1 = NonFinite \<or> n = 0"
  proof -
    have "y' ! 1 = (if nat n \<le> 1 \<and> 1 < nat n + nat G then y ! 1 + ww ! (1 - nat n) else y ! 1)"
      using y'(3) N by blast
    then show ?thesis using that ww(3) assms(1) by (auto split: if_splits)
  qed
  then show ?thesis
    using sl lp e1(1) e2(1) w2(1) ww(1) y'(1,2) assms(9)
    by (simp add: grain_step_def)
qed

lemma grain_loop_zero:
  assumes "2 \<le> G" "1 \<le> P" "0 < f" "1 \<le> igs" "\<lfloor>real_of_int igs / f\<rfloor> = G"
    and "length win = nat G"
  shows "\<forall>n\<in>set ns. 0 \<le> n \<and> n + max igs G \<le> int N \<Longrightarrow> length y = N \<Longrightarrow>
         y ! 1 = NonFinite \<or> (\<exists>ms. ns = 0 # ms) \<Longrightarrow>
         \<exists>y'. grain_loop (replicate N (Fin 0)) f G P igs win ns y = Inr y' \<and> length y' = N \<and>
              y' ! 1 = NonFinite"
proof (induction ns arbitrary: y)
  case Nil
  then show ?case by simp
next
  case (Cons n ns)
  have n: "0 \<le> n" "n + max igs G \<le> int N" using Cons.prems(1) by simp_all
  from grain_step_zero [OF assms n Cons.prems(2)] obtain y1 where
    y1: "grain_step (replicate N (Fin 0)) f G P igs win n y = Inr y1" "length y1 = N"
        "y ! 1 = NonFinite \<or> n = 0 \<longrightarrow> y1 ! 1 = NonFinite"
    by blast
  have "y1 ! 1 = NonFinite" using y1(3) Cons.prems(3) by auto
  then have "\<exists>y'. grain_loop (replicate N (Fin 0)) f G P igs win ns y1 = Inr y' \<and>
                  length y' = N \<and> y' ! 1 = NonFinite"
    using Cons.prems(1) y1(2) by (intro Cons.IH) simp_all
  then show ?case using y1(1) by simp
qed

text \<open>
  Claim C8 reads: for every all-zero input of at least \<open>G + P\<close> samples,
  \<open>LPC_GS_pshift\<close> returns an all-zero output of the same length and raises no
  exception, the degenerate solve being absorbed. The code returns, and the output has
  the input's length, but nothing absorbs the NaN coefficients of \<open>ld\<close>: with valid
  parameters for which the resampled grain has \<open>G\<close> samples, as soon as one grain is
  processed (the input is longer than \<open>max(igs, G)\<close>) the output sample 1 is not
  finite. The output is all zero when no grain is processed.
\<close>

theorem pshift_zero_input:
  assumes "2 \<le> G" "1 \<le> P" "0 < f" "0 \<le> ov" "ov < 1"
    and "\<lfloor>real_of_int (py_int (real_of_int G * f + 1 / 2)) / f\<rfloor> = G"
  shows "(max (py_int (real_of_int G * f + 1 / 2)) G < int N \<longrightarrow>
            (\<exists>y. LPC_GS_pshift (replicate N (Fin 0)) f G P ov = Inr y \<and> length y = N \<and>
                 y ! 1 = NonFinite)) \<and>
         (int N \<le> max (py_int (real_of_int G * f + 1 / 2)) G \<longrightarrow>
            LPC_GS_pshift (replicate N (Fin 0)) f G P ov = Inr (replicate N (Fin 0)))"
proof -
  define igs where "igs = py_int (real_of_int G * f + 1 / 2)"
  have fl: "\<lfloor>real_of_int igs / f\<rfloor> = G" using assms(6) by (simp add: igs_def)
  have "real_of_int G \<le> real_of_int igs / f"
    using of_int_floor_le [of "real_of_int igs / f"] fl by simp
  then have "2 \<le> real_of_int igs / f" using assms(1) by linarith
  then have "2 * f \<le> real_of_int igs" using assms(3) by (simp add: pos_le_divide_eq)
  then have "0 < real_of_int igs" using assms(3) by linarith
  then have igs: "1 \<le> igs" by linarith
  from win_taper_valid [OF assms(1,4,5)] obtain win stride where
    w: "win_taper G ov = Inr (win, stride)" "length win = nat G" "1 \<le> stride"
    by blast
  obtain ns where ns: "py_range_step (int N - max igs G) stride = Inr ns"
    using w(3) by (auto simp: py_range_step_def)
  note rg = py_range_step_positive [OF w(3) ns]
  have run: "LPC_GS_pshift (replicate N (Fin 0)) f G P ov =
             grain_loop (replicate N (Fin 0)) f G P igs win ns (replicate N (Fin 0))"
    using w(1) ns by (simp add: LPC_GS_pshift_def Let_def igs_def)
  show ?thesis
  proof (intro conjI impI)
    assume "max (py_int (real_of_int G * f + 1 / 2)) G < int N"
    then have pos: "0 < int N - max igs G" by (simp add: igs_def)
    have 1: "\<forall>n\<in>set ns. 0 \<le> n \<and> n + max igs G \<le> int N" using rg(1) by auto
    have 2: "replicate N (Fin 0) ! 1 = NonFinite \<or> (\<exists>ms. ns = 0 # ms)" using rg(1) pos by blast
    from grain_loop_zero [OF assms(1,2,3) igs fl w(2) 1 _ 2]
    show "\<exists>y. LPC_GS_pshift (replicate N (Fin 0)) f G P ov = Inr y \<and> length y = N \<and>
              y ! 1 = NonFinite"
      unfolding run by simp
  next
    assume "int N \<le> max (py_int (real_of_int G * f + 1 / 2)) G"
    then have "int N - max igs G \<le> 0" by (simp add: igs_def)
    then have "ns = []" by (rule rg(2))
    then show "LPC_GS_pshift (replicate N (Fin 0)) f G P ov = Inr (replicate N (Fin 0))"
      unfolding run by simp
  qed
qed

theorem pshift_zero_input_witness:
  "(2::int) \<le> 2 \<and> (1::int) \<le> 1 \<and> (0::real) < 1 \<and> (0::real) \<le> 1 / 5 \<and> (1 / 5 :: real) < 1 \<and>
   \<lfloor>real_of_int (py_int (real_of_int 2 * 1 + 1 / 2)) / 1\<rfloor> = 2 \<and>
   max (py_int (real_of_int 2 * 1 + 1 / 2)) 2 < int 3 \<and>
   (\<exists>y. LPC_GS_pshift (replicate 3 (Fin 0)) 1 2 1 (1 / 5) = Inr y \<and> length y = 3 \<and>
        y ! 1 = NonFinite)"
proof -
  have i: "py_int (5 / 2) = 2" by (simp add: py_int_def)
  have f: "\<lfloor>real_of_int (py_int (real_of_int 2 * 1 + 1 / 2)) / 1\<rfloor> = 2" by (simp add: i)
  have v: "(0::real) \<le> 1 / 5" "(1 / 5 :: real) < 1" by simp_all
  from pshift_zero_input [OF _ _ _ v f, of 1 3] show ?thesis by (simp add: i)
qed

theorem pshift_zero_input_counterexample:
  "LPC_GS_pshift [Fin 0, Fin 0, Fin 0] 1 2 1 (1 / 5) = Inr [NonFinite, NonFinite, Fin 0]"
  by code_simp

section \<open>The degenerate solve in the solver and in the grain engine\<close>

lemma py_slice_length:
  assumes "0 \<le> n" "0 \<le> k" "n + k \<le> int (length x)"
  shows "length (py_slice x n (n + k)) = nat k"
proof -
  have "slice_bound (length x) n = nat n" "slice_bound (length x) (n + k) = nat n + nat k"
    using assms by (simp_all add: slice_bound_def nat_add_distrib)
  moreover have "nat k \<le> length x - nat n" using assms by linarith
  ultimately show ?thesis by (simp add: py_slice_def)
qed

lemma bac_length:
  assumes "0 \<le> P" "bac w P = Inr r"
  shows "length r = nat P + 1"
  using assms(2) unfolding bac_entries [OF assms(1)] by auto

lemma grain_step_degenerate:
  assumes "2 \<le> G" "1 \<le> P" "0 < f" "1 \<le> igs" "\<lfloor>real_of_int igs / f\<rfloor> = G"
    and "length win = nat G" "0 \<le> n" "n + max igs G \<le> int (length x)" "length y = length x"
    and "bac (py_slice x n (n + igs)) P = Inr r" "Fin 0 \<in> set (ld_divisors r P)"
  shows "\<exists>y'. grain_step x f G P igs win n y = Inr y' \<and> length y' = length y \<and>
              y' ! (nat n + 1) = NonFinite"
proof -
  define w where "w = py_slice x n (n + igs)"
  have lw: "length w = nat igs"
    unfolding w_def using assms(4,7,8) by (intro py_slice_length) simp_all
  have "length r = nat P + 1"
    using assms(2,10) by (intro bac_length [of P "py_slice x n (n + igs)"]) simp_all
  then have "ld r P = Inr (Fin 1 # replicate (nat P) NonFinite)"
    using assms(2,11) by (intro ld_nonfinite_on_zero_divisor) simp_all
  then have lp: "lpc w P = Inr (Fin 1 # replicate (nat P) NonFinite)"
    using assms(10) by (simp add: lpc_def w_def)
  obtain e1 where e1: "lfilter (Fin 1 # replicate (nat P) NonFinite) [Fin 1] w = Inr e1"
      "length e1 = nat igs"
    using lfilter_length [of "Fin 1" "Fin 1 # replicate (nat P) NonFinite" "[]" w] lw
    by auto
  have "real (length e1) = real_of_int igs" using e1(2) assms(4) by simp
  then obtain e2 where e2: "resample e1 f = Inr e2" "length e2 = nat G"
    using resample_length [OF assms(3), of e1] assms(5) by auto
  have "1 \<le> nat P" "2 \<le> length e2" using assms(1,2) e2(2) by simp_all
  from lfilter_synthesis_nonfinite [OF this] obtain w2 where
    w2: "lfilter [Fin 1] (Fin 1 # replicate (nat P) NonFinite) e2 = Inr w2"
        "length w2 = nat G" "w2 ! 1 = NonFinite"
    using e2(2) by auto
  define ww where "ww = map2 (*) w2 win"
  have ww: "np_mul w2 win = Inr ww" "length ww = nat G" "ww ! 1 = NonFinite"
    using w2 assms(1,6) by (simp_all add: np_mul_def ww_def)
  have "n + G \<le> int (length y)" using assms(8,9) by simp
  from iadd_slice_full [OF assms(7) _ this ww(2)] assms(1) obtain y' where
    y': "iadd_slice y n (n + G) ww = Inr y'" "length y' = length y"
        "\<forall>j<length y. y' ! j =
           (if nat n \<le> j \<and> j < nat n + nat G then y ! j + ww ! (j - nat n) else y ! j)"
    by auto
  have "nat n + 1 < length y" using assms(1,7,8,9) by linarith
  then have "y' ! (nat n + 1) =
             (if nat n \<le> nat n + 1 \<and> nat n + 1 < nat n + nat G
              then y ! (nat n + 1) + ww ! (nat n + 1 - nat n) else y ! (nat n + 1))"
    using y'(3) by blast
  then have "y' ! (nat n + 1) = NonFinite" using ww(3) assms(1) by simp
  then show ?thesis
    using lp e1(1) e2(1) w2(1) ww(1) y'(1,2)
    by (simp add: grain_step_def w_def [symmetric])
qed

text \<open>
  Claim C6 reads: on an autocorrelation input for which the prediction-error power \<open>v\<close>
  comes to zero, \<open>ld\<close> detects the divisor and signals a \<open>DegenerateFilterError\<close>
  rather than propagating NaN or Inf, and the grain engine replaces the filter of that
  grain by the identity and goes on. The code has neither. What holds, first of the
  solver: for an autocorrelation vector of reals, when a divisor of the recursion is
  zero (\<open>r[0]\<close>, or \<open>v\<close> at the start of a pass), \<open>ld\<close> returns, without an exception,
  the vector \<open>[1, NaN, ..., NaN]\<close>. Then of the grain engine: for a signal of real
  samples, a grain whose autocorrelation has a zero divisor (a silent grain, for one)
  gets these coefficients from \<open>lpc\<close>, they are not replaced, and the pass of the loop
  filters the grain with them and returns with the second sample of the grain's span
  in the accumulator not finite, whatever the accumulator held; the identity filter
  would have left a finite accumulator finite.
\<close>

theorem degenerate_solve_not_handled:
  fixes r xs :: "real list"
  shows "(1 \<le> p \<and> nat p < length r \<and> Fin 0 \<in> set (ld_divisors (map Fin r) p) \<longrightarrow>
            ld (map Fin r) p = Inr (Fin 1 # replicate (nat p) NonFinite)) \<and>
         (2 \<le> G \<and> 1 \<le> P \<and> 0 < f \<and> 1 \<le> igs \<and> \<lfloor>real_of_int igs / f\<rfloor> = G \<and>
          length win = nat G \<and> 0 \<le> n \<and> n + max igs G \<le> int (length xs) \<and>
          length y = length xs \<and>
          bac (py_slice (map Fin xs) n (n + igs)) P = Inr rg \<and>
          Fin 0 \<in> set (ld_divisors rg P) \<longrightarrow>
            lpc (py_slice (map Fin xs) n (n + igs)) P =
              Inr (Fin 1 # replicate (nat P) NonFinite) \<and>
            (\<exists>y'. grain_step (map Fin xs) f G P igs win n y = Inr y' \<and>
                  length y' = length y \<and> y' ! (nat n + 1) = NonFinite))"
proof (intro conjI impI)
  assume "1 \<le> p \<and> nat p < length r \<and> Fin 0 \<in> set (ld_divisors (map Fin r) p)"
  then show "ld (map Fin r) p = Inr (Fin 1 # replicate (nat p) NonFinite)"
    by (intro ld_nonfinite_on_zero_divisor) simp_all
next
  assume h: "2 \<le> G \<and> 1 \<le> P \<and> 0 < f \<and> 1 \<le> igs \<and> \<lfloor>real_of_int igs / f\<rfloor> = G \<and>
          length win = nat G \<and> 0 \<le> n \<and> n + max igs G \<le> int (length xs) \<and>
          length y = length xs \<and>
          bac (py_slice (map Fin xs) n (n + igs)) P = Inr rg \<and>
          Fin 0 \<in> set (ld_divisors rg P)"
  then have "length rg = nat P + 1"
    by (intro bac_length [of P "py_slice (map Fin xs) n (n + igs)"]) simp_all
  then have "ld rg P = Inr (Fin 1 # replicate (nat P) NonFinite)"
    using h by (intro ld_nonfinite_on_zero_divisor) simp_all
  then show "lpc (py_slice (map Fin xs) n (n + igs)) P =
             Inr (Fin 1 # replicate (nat P) NonFinite)"
    using h by (simp add: lpc_def)
  show "\<exists>y'. grain_step (map Fin xs) f G P igs win n y = Inr y' \<and>
             length y' = length y \<and> y' ! (nat n + 1) = NonFinite"
    using h by (intro grain_step_degenerate [of G P f igs win n "map Fin xs" y rg]) simp_all
qed

theorem degenerate_solve_not_handled_witness:
  "((1::int) \<le> 2 \<and> nat 2 < length [1, 1, 1 :: real] \<and>
    Fin 0 \<in> set (ld_divisors (map Fin [1, 1, 1]) 2)) \<and>
   ld (map Fin [1, 1, 1]) 2 = Inr [Fin 1, NonFinite, NonFinite] \<and>
   ((2::int) \<le> 2 \<and> (1::int) \<le> 1 \<and> (0::real) < 1 \<and> (1::int) \<le> 2 \<and>
    \<lfloor>real_of_int 2 / 1\<rfloor> = 2 \<and> length [Fin 1, Fin 1] = nat 2 \<and> (0::int) \<le> 0 \<and>
    0 + max 2 2 \<le> int (length [0, 0, 5 :: real]) \<and>
    length [Fin 7, Fin 8, Fin 9] = length [0, 0, 5 :: real] \<and>
    bac (py_slice (map Fin [0, 0, 5]) 0 (0 + 2)) 1 = Inr [Fin 0, Fin 0] \<and>
    Fin 0 \<in> set (ld_divisors [Fin 0, Fin 0] 1)) \<and>
   lpc (py_slice (map Fin [0, 0, 5]) 0 (0 + 2)) 1 = Inr [Fin 1, NonFinite] \<and>
   (\<exists>y'. grain_step (map Fin [0, 0, 5]) 1 2 1 2 [Fin 1, Fin 1] 0 [Fin 7, Fin 8, Fin 9] = Inr y' \<and>
         length y' = 3 \<and> y' ! 1 = NonFinite)"
proof -
  have d: "Fin 0 \<in> set (ld_divisors (map Fin [1, 1, 1]) 2)" by code_simp
  have b: "bac (py_slice (map Fin [0, 0, 5]) 0 (0 + 2)) 1 = Inr [Fin 0, Fin 0]" by code_simp
  have e: "Fin 0 \<in> set (ld_divisors [Fin 0, Fin 0] 1)" by code_simp
  note t = degenerate_solve_not_handled
    [where p = 2 and r = "[1, 1, 1]" and G = 2 and P = 1 and f = 1 and igs = 2 and
      win = "[Fin 1, Fin 1]" and n = 0 and xs = "[0, 0, 5]" and y = "[Fin 7, Fin 8, Fin 9]" and
      rg = "[Fin 0, Fin 0]"]
  have 1: "ld (map Fin [1, 1, 1]) 2 = Inr [Fin 1, NonFinite, NonFinite]"
    using t d by (simp add: numeral_2_eq_2)
  have 2: "lpc (py_slice (map Fin [0, 0, 5]) 0 (0 + 2)) 1 = Inr [Fin 1, NonFinite] \<and>
           (\<exists>y'. grain_step (map Fin [0, 0, 5]) 1 2 1 2 [Fin 1, Fin 1] 0 [Fin 7, Fin 8, Fin 9] = Inr y' \<and>
                 length y' = 3 \<and> y' ! 1 = NonFinite)"
    using t b e by (simp add: numeral_3_eq_3)
  show ?thesis using d b e 1 2 by simp
qed

theorem degenerate_solve_counterexample:
  "ld [Fin 0, Fin 0] 1 = Inr [Fin 1, NonFinite] \<and>
   LPC_GS_pshift [Fin 0, Fin 0, Fin 5] 1 2 1 (1 / 5) = Inr [NonFinite, NonFinite, Fin 0]"
  by code_simp

section \<open>What holds of the output length and of the window\<close>

text \<open>
  The accumulator keeps its length through every grain, so a call of \<open>LPC_GS_pshift\<close>
  that returns, returns as many samples as it was given: the length can only be lost to
  an exception, as for \<open>G = 3\<close> and \<open>f = 0.7\<close> above.
\<close>

lemma slice_bound_le: "slice_bound len i \<le> len"
  by (auto simp: slice_bound_def nat_le_iff)

lemma iadd_slice_length:
  assumes "iadd_slice y i j v = Inr y'"
  shows "length y' = length y"
  using assms slice_bound_le [of "length y" i]
  by (auto simp: iadd_slice_def Let_def min_def split: if_splits)

lemma grain_step_length:
  assumes "grain_step x f G P igs win n y = Inr y'"
  shows "length y' = length y"
  using assms iadd_slice_length
  by (auto simp: grain_step_def Let_def split: sum.splits)

lemma grain_loop_length:
  "grain_loop x f G P igs win ns y = Inr y' \<Longrightarrow> length y' = length y"
proof (induction ns arbitrary: y)
  case Nil
  then show ?case by simp
next
  case (Cons n ns)
  then show ?case
    using grain_step_length by (fastforce split: sum.splits)
qed

lemma LPC_GS_pshift_length:
  assumes "LPC_GS_pshift x f G P ov = Inr y"
  shows "length y = length x"
  using assms grain_loop_length
  by (fastforce simp: LPC_GS_pshift_def Let_def split: sum.splits prod.splits)

text \<open>
  Where the window has a ramp and a plateau (\<open>R = int(N * a / 2)\<close> with \<open>1 \<le> R\<close> and
  \<open>2 R < N\<close>), the window and its copy shifted by the stride do sum to 1 at every index
  they share: the sums that differ from 1 are confined to \<open>R = 0\<close> and \<open>N = 2 R\<close>.
\<close>

lemma trapezoid_nth:
  fixes R N :: nat
  defines "ramp \<equiv> map (\<lambda>k. Fin (real k / real R)) [0..<R]"
  defines "w \<equiv> ramp @ replicate (N - 2 * R) (Fin 1) @ rev ramp"
  assumes "2 * R < N"
  shows "k < R \<Longrightarrow> w ! k = Fin (real k / real R)"
    and "R \<le> k \<Longrightarrow> k < N - R \<Longrightarrow> w ! k = Fin 1"
    and "N - R \<le> k \<Longrightarrow> k < N \<Longrightarrow> w ! k = Fin (real (N - 1 - k) / real R)"
proof -
  have lr: "length ramp = R" by (simp add: ramp_def)
  show "w ! k = Fin (real k / real R)" if "k < R"
    using that by (simp add: w_def nth_append lr) (simp add: ramp_def)
  show "w ! k = Fin 1" if "R \<le> k" "k < N - R"
  proof -
    have "k - R < N - 2 * R" using that assms(3) by linarith
    then show ?thesis using that by (simp add: w_def nth_append lr)
  qed
  show "w ! k = Fin (real (N - 1 - k) / real R)" if "N - R \<le> k" "k < N"
  proof -
    have a: "\<not> k < R" "\<not> k - R < N - 2 * R" using that assms(3) by linarith+
    have b: "k - R - (N - 2 * R) < R" "R - Suc (k - R - (N - 2 * R)) = N - 1 - k"
      using that assms(3) by linarith+
    have c: "N - 1 - k < R" using that assms(3) by linarith
    have "w ! k = rev ramp ! (k - R - (N - 2 * R))"
      using a by (simp add: w_def nth_append lr)
    also have "\<dots> = ramp ! (N - 1 - k)" using b by (simp add: rev_nth lr)
    also have "\<dots> = Fin (real (N - 1 - k) / real R)"
      unfolding ramp_def using c by (simp only: nth_map length_upt diff_zero nth_upt add_0)
    finally show ?thesis .
  qed
qed

lemma crossfade_sum_nth:
  assumes "0 \<le> stride" "nat stride \<le> j" "j < length win"
  shows "\<exists>s. crossfade_sum win stride = Inr s \<and> s ! j = win ! j + win ! (j - nat stride)"
proof -
  define st where "st = nat stride"
  have "map2 (+) (win @ replicate st (Fin 0)) (replicate st (Fin 0) @ win) ! j =
        (win @ replicate st (Fin 0)) ! j + (replicate st (Fin 0) @ win) ! j"
    using assms(3) by simp
  also have "\<dots> = win ! j + win ! (j - st)"
    using assms(2,3) by (simp add: nth_append st_def)
  finally show ?thesis using assms(1) by (simp add: crossfade_sum_def st_def)
qed

lemma win_taper_unity:
  assumes "1 \<le> py_int (real_of_int N * a / 2)" "2 * py_int (real_of_int N * a / 2) < N"
  shows "\<exists>win stride. win_taper N a = Inr (win, stride) \<and> 0 \<le> stride \<and> length win = nat N \<and>
           (\<forall>j. nat stride \<le> j \<and> j < nat N \<longrightarrow>
                (\<exists>s. crossfade_sum win stride = Inr s \<and> s ! j = Fin 1))"
proof -
  define R where "R = nat (py_int (real_of_int N * a / 2))"
  define M where "M = nat N"
  define ramp where "ramp = map (\<lambda>k. Fin (real k / real R)) [0..<R]"
  define w where "w = ramp @ replicate (M - 2 * R) (Fin 1) @ rev ramp"
  have R: "py_int (real_of_int N * a / 2) = int R" "1 \<le> R" "2 * R < M"
    using assms by (simp_all add: R_def M_def)
  have m: "map (\<lambda>k. Fin (real_of_int k) / Fin (real_of_int (int R))) (py_range (int R)) = ramp"
    using R(2) by (simp add: ramp_def py_range_def comp_def)
  have n: "nat (N - 2 * int R) = M - 2 * R" by (simp add: M_def nat_diff_distrib')
  have c: "\<not> N - 2 * int R < 0" using R(3) by (simp add: M_def)
  have wt: "win_taper N a = Inr (w, N - int R - 1)"
    unfolding win_taper_def Let_def R(1) m n w_def using c by simp
  have st: "nat (N - int R - 1) = M - R - 1" by (simp add: M_def nat_diff_distrib')
  have lw: "length w = M" using R(3) by (simp add: w_def ramp_def)
  note nth = trapezoid_nth [OF R(3), folded ramp_def, folded w_def]
  have "\<exists>s. crossfade_sum w (N - int R - 1) = Inr s \<and> s ! j = Fin 1"
    if j: "M - R - 1 \<le> j" "j < M" for j
  proof -
    have "0 \<le> N - int R - 1" using R(2,3) by (simp add: M_def)
    from crossfade_sum_nth [OF this, of j w] j obtain s where
      s: "crossfade_sum w (N - int R - 1) = Inr s"
         "s ! j = w ! j + w ! (j - (M - R - 1))"
      by (auto simp: st lw)
    have "w ! j + w ! (j - (M - R - 1)) = Fin 1"
    proof (cases "j = M - R - 1")
      case True
      have "w ! j = Fin 1" using True R(2,3) by (intro nth(2)) linarith+
      moreover have "w ! 0 = Fin 0" using nth(1) [of 0] R(2) by simp
      ultimately show ?thesis using True by simp
    next
      case False
      define i where "i = j - (M - R - 1)"
      have i: "1 \<le> i" "i \<le> R" "j = M - R + (i - 1)" "M - 1 - j = R - i"
        using False j R(2,3) unfolding i_def by linarith+
      have wj: "w ! j = Fin (real (R - i) / real R)"
        using nth(3) [of j] j i R(3) by simp
      show ?thesis
      proof (cases "i = R")
        case True
        have "w ! i = Fin 1" using True R(2,3) by (intro nth(2)) linarith+
        then show ?thesis using wj True by (simp add: i_def)
      next
        case False
        then have "w ! i = Fin (real i / real R)" using i(2) by (intro nth(1)) simp
        moreover have "real (R - i) / real R + real i / real R = 1"
          using i(2) R(2) by (simp add: add_divide_distrib [symmetric] of_nat_diff)
        ultimately show ?thesis using wj by (simp add: i_def)
      qed
    qed
    then show ?thesis using s by simp
  qed
  then show ?thesis
    using wt lw R(2,3) by (intro exI [of _ w] exI [of _ "N - int R - 1"]) (simp add: st M_def)
qed

end
